theory Spec2Isabelle
  imports Main
begin

section \<open>Values, exceptions and the output file\<close>

text \<open>
  What \<^verbatim>\<open>json.loads\<close> returns: a dictionary, a list, a string, a number, a boolean or
  \<^verbatim>\<open>None\<close>. A dictionary is an association list read with \<open>map_of\<close>. A float is
  kept as mantissa and binary exponent; the program only ever compares a number with a string
  and writes it back.
\<close>

datatype json =
    JNull
  | JBool bool
  | JInt int
  | JFloat int int
  | JStr string
  | JArr "json list"
  | JObj "(string \<times> json) list"

text \<open>The exceptions that the modelled code can raise; \<open>SystemExit\<close> is \<^verbatim>\<open>sys.exit()\<close>.\<close>

datatype error =
    KeyError
  | TypeError
  | IndexError
  | ValueError
  | OverflowError
  | JSONDecodeError
  | SystemExit

text \<open>
  A line of a record file is represented by the outcome of \<^verbatim>\<open>json.loads(line)\<close>, a call
  into the standard library: the decoded value, or the \<open>JSONDecodeError\<close> raised for a
  malformed line.
\<close>

type_synonym line = "error + json"

text \<open>
  \<^verbatim>\<open>writeOutput(data, encode, output)\<close> opens the output in append mode and adds one
  write to it. The output file is the list of the writes it has received, oldest first. With
  \<^verbatim>\<open>encode\<close> true the write is \<^verbatim>\<open>json.dump(data)\<close> followed by a newline, so a
  file of records is a \<open>json list\<close>, one line each; with \<^verbatim>\<open>encode\<close> false the write is
  the string itself, and the text of the file is the concatenation of the list. Failures of
  the file system are outside the model.
\<close>

definition writeOutput :: "'a \<Rightarrow> 'a list \<Rightarrow> 'a list" where
  "writeOutput data output = output @ [data]"

text \<open>A run: what has been written, and the exception that ended it, if one did.\<close>

type_synonym 'a run = "'a list \<times> error option"

section \<open>Python primitives\<close>

text \<open>
  A \<^verbatim>\<open>str\<close> is a list of characters; the characters of HOL are the code points below
  256, which is where every character that the program tests for lies.
\<close>

text \<open>\<^verbatim>\<open>v[k]\<close> for a string \<open>k\<close>: only a dictionary can be subscripted with a string.\<close>

fun getitem :: "json \<Rightarrow> string \<Rightarrow> error + json" where
  "getitem (JObj kvs) k = (case map_of kvs k of None \<Rightarrow> Inl KeyError | Some v \<Rightarrow> Inr v)"
| "getitem v k = Inl TypeError"

text \<open>\<^verbatim>\<open>v[k1][k2]...[kn]\<close>, evaluated left to right.\<close>

fun getpath :: "json \<Rightarrow> string list \<Rightarrow> error + json" where
  "getpath v [] = Inr v"
| "getpath v (k # ks) = (case getitem v k of Inl e \<Rightarrow> Inl e | Inr w \<Rightarrow> getpath w ks)"

text \<open>\<^verbatim>\<open>s[k]\<close> for two strings: string indices must be integers.\<close>

definition str_getitem :: "string \<Rightarrow> string \<Rightarrow> error + string" where
  "str_getitem s k = Inl TypeError"

text \<open>\<^verbatim>\<open>v == value\<close> and \<^verbatim>\<open>v != value\<close> for a string \<open>value\<close>: no conversion takes place.\<close>

fun py_eq :: "json \<Rightarrow> string \<Rightarrow> bool" where
  "py_eq (JStr s) value = (s = value)"
| "py_eq v value = False"

definition py_ne :: "json \<Rightarrow> string \<Rightarrow> bool" where
  "py_ne v value = (\<not> py_eq v value)"

text \<open>\<^verbatim>\<open>xs[i]\<close> on a list.\<close>

definition py_index :: "'a list \<Rightarrow> nat \<Rightarrow> error + 'a" where
  "py_index xs i = (if i < length xs then Inr (xs ! i) else Inl IndexError)"

text \<open>
  \<^verbatim>\<open>str.isspace\<close> on the code points below 256: tab to carriage return, the four
  separators \<open>0x1C\<close> to \<open>0x1F\<close>, the space, \<open>0x85\<close> and \<open>0xA0\<close>.
\<close>

definition isspace :: "char \<Rightarrow> bool" where
  "isspace c = (let n = (of_char c :: nat) in
     (9 \<le> n \<and> n \<le> 13) \<or> (28 \<le> n \<and> n \<le> 32) \<or> n = 133 \<or> n = 160)"

definition lstrip :: "string \<Rightarrow> string" where
  "lstrip s = dropWhile isspace s"

definition rstrip :: "string \<Rightarrow> string" where
  "rstrip s = rev (dropWhile isspace (rev s))"

definition strip :: "string \<Rightarrow> string" where
  "strip s = rstrip (lstrip s)"

text \<open>\<^verbatim>\<open>s.split(sep)\<close> for a separator of one character.\<close>

fun str_split :: "char \<Rightarrow> string \<Rightarrow> string list" where
  "str_split sep [] = [[]]"
| "str_split sep (c # cs) =
     (if c = sep then [] # str_split sep cs
      else (case str_split sep cs of [] \<Rightarrow> [[c]] | w # ws \<Rightarrow> (c # w) # ws))"

definition startswith :: "string \<Rightarrow> string \<Rightarrow> bool" where
  "startswith s p = (take (length p) s = p)"

definition endswith :: "string \<Rightarrow> string \<Rightarrow> bool" where
  "endswith s p = (length p \<le> length s \<and> drop (length s - length p) s = p)"

section \<open>The path filter\<close>

text \<open>\<^verbatim>\<open>parseFilters\<close>: the filter string is cut at commas, each piece at equals signs.\<close>

definition parseFilters :: "string \<Rightarrow> string list list" where
  "parseFilters filterVal = map (str_split (CHR ''='')) (str_split (CHR '','') filterVal)"

text \<open>
  The chain of \<^verbatim>\<open>if\<close>/\<^verbatim>\<open>elif\<close> on \<^verbatim>\<open>len(fields)\<close>, which is the same in both modes
  up to the comparison \<open>cmp\<close> (\<^verbatim>\<open>==\<close> or \<^verbatim>\<open>!=\<close>). The result is the truth of the
  comparison that was reached, \<open>False\<close> when no branch is taken, or the exception raised. The
  fourth branch subscripts the string \<^verbatim>\<open>fields[1]\<close> with the string \<^verbatim>\<open>fields[2]\<close>,
  after \<^verbatim>\<open>log[fields[0]]\<close> has been evaluated; the last two branches test for length 2
  again.
\<close>

definition branches :: "(json \<Rightarrow> string \<Rightarrow> bool) \<Rightarrow> json \<Rightarrow> string list \<Rightarrow> string \<Rightarrow> error + bool" where
  "branches cmp log fields value =
     (if length fields = 1 then
        (case getpath log [fields ! 0] of Inl e \<Rightarrow> Inl e | Inr v \<Rightarrow> Inr (cmp v value))
      else if length fields = 2 then
        (case getpath log [fields ! 0, fields ! 1] of Inl e \<Rightarrow> Inl e | Inr v \<Rightarrow> Inr (cmp v value))
      else if length fields = 3 then
        (case getpath log [fields ! 0, fields ! 1, fields ! 2] of
           Inl e \<Rightarrow> Inl e | Inr v \<Rightarrow> Inr (cmp v value))
      else if length fields = 4 then
        (case getitem log (fields ! 0) of
           Inl e \<Rightarrow> Inl e
         | Inr a \<Rightarrow>
             (case str_getitem (fields ! 1) (fields ! 2) of
                Inl e \<Rightarrow> Inl e
              | Inr s \<Rightarrow>
                  (case str_getitem s (fields ! 3) of
                     Inl e \<Rightarrow> Inl e
                   | Inr k \<Rightarrow>
                       (case getitem a k of Inl e \<Rightarrow> Inl e | Inr v \<Rightarrow> Inr (cmp v value)))))
      else if length fields = 2 then
        (case getpath log [fields ! 0, fields ! 1, fields ! 2, fields ! 3, fields ! 4] of
           Inl e \<Rightarrow> Inl e | Inr v \<Rightarrow> Inr (cmp v value))
      else if length fields = 2 then
        (case getpath log [fields ! 0, fields ! 1, fields ! 2, fields ! 3, fields ! 4, fields ! 5] of
           Inl e \<Rightarrow> Inl e | Inr v \<Rightarrow> Inr (cmp v value))
      else Inr False)"

text \<open>
  One condition in include mode: whether the record is written. A \<open>KeyError\<close> is caught,
  and the handler formats a debug message with \<^verbatim>\<open>log['insertId']\<close>, which is evaluated
  whatever the log level and raises in its turn when the record has no such key.
\<close>

definition include_item :: "json \<Rightarrow> string list \<Rightarrow> string \<Rightarrow> error + bool" where
  "include_item log fields value =
     (case branches py_eq log fields value of
        Inr b \<Rightarrow> Inr b
      | Inl e \<Rightarrow>
          (if e = KeyError then
             (case getitem log ''insertId'' of Inl e' \<Rightarrow> Inl e' | Inr i \<Rightarrow> Inr False)
           else Inl e))"

text \<open>One condition in exclude mode: whether \<^verbatim>\<open>excludeCount\<close> is incremented.\<close>

definition exclude_item :: "json \<Rightarrow> string list \<Rightarrow> string \<Rightarrow> error + bool" where
  "exclude_item log fields value =
     (case branches py_ne log fields value of
        Inr b \<Rightarrow> Inr b
      | Inl e \<Rightarrow> (if e = KeyError then Inr True else Inl e))"

text \<open>
  The body of \<^verbatim>\<open>for item in filterList\<close> for one item: \<^verbatim>\<open>fields\<close> and \<^verbatim>\<open>value\<close>
  are computed first (\<^verbatim>\<open>item[1]\<close> raises \<open>IndexError\<close> for a piece without an equals
  sign), then the two tests on \<^verbatim>\<open>filterString\<close> follow. The state is the output file and
  \<^verbatim>\<open>excludeCount\<close>.
\<close>

definition item_step :: "string \<Rightarrow> json \<Rightarrow> string list \<Rightarrow> json list \<times> nat \<Rightarrow> error + json list \<times> nat" where
  "item_step filterString log item st =
     (case py_index item 0 of
        Inl e \<Rightarrow> Inl e
      | Inr path \<Rightarrow>
          (case py_index item 1 of
             Inl e \<Rightarrow> Inl e
           | Inr raw \<Rightarrow>
               (let fields = str_split (CHR ''.'') path;
                    value = strip raw;
                    r1 = (if filterString = ''include'' then
                            (case include_item log fields value of
                               Inl e \<Rightarrow> Inl e
                             | Inr b \<Rightarrow> Inr (if b then (writeOutput log (fst st), snd st) else st))
                          else Inr st)
                in (case r1 of
                      Inl e \<Rightarrow> Inl e
                    | Inr st1 \<Rightarrow>
                        (if filterString = ''exclude'' then
                           (case exclude_item log fields value of
                              Inl e \<Rightarrow> Inl e
                            | Inr b \<Rightarrow> Inr (if b then (fst st1, snd st1 + 1) else st1))
                         else Inr st1)))))"

text \<open>The loop over the filter list; an exception leaves the loop with the state reached.\<close>

fun items_loop :: "string \<Rightarrow> json \<Rightarrow> string list list \<Rightarrow> json list \<times> nat \<Rightarrow> (json list \<times> nat) \<times> error option" where
  "items_loop filterString log [] st = (st, None)"
| "items_loop filterString log (item # items) st =
     (case item_step filterString log item st of
        Inl e \<Rightarrow> (st, Some e)
      | Inr st' \<Rightarrow> items_loop filterString log items st')"

text \<open>The body of \<^verbatim>\<open>for line in f\<close>: decode, run the conditions, then the exclude test.\<close>

definition filter_line :: "string \<Rightarrow> string list list \<Rightarrow> line \<Rightarrow> json list \<Rightarrow> json run" where
  "filter_line filterString filterList ln output =
     (case ln of
        Inl e \<Rightarrow> (output, Some e)
      | Inr log \<Rightarrow>
          (case items_loop filterString log filterList (output, 0) of
             (st, Some e) \<Rightarrow> (fst st, Some e)
           | (st, None) \<Rightarrow>
               (if filterString = ''exclude'' \<and> snd st = length filterList
                then (writeOutput log (fst st), None)
                else (fst st, None))))"

fun filter_lines :: "string \<Rightarrow> string list list \<Rightarrow> line list \<Rightarrow> json list \<Rightarrow> json run" where
  "filter_lines filterString filterList [] output = (output, None)"
| "filter_lines filterString filterList (ln # lns) output =
     (case filter_line filterString filterList ln output of
        (output', Some e) \<Rightarrow> (output', Some e)
      | (output', None) \<Rightarrow> filter_lines filterString filterList lns output')"

text \<open>
  \<^verbatim>\<open>filterLog(file, cont, output, filterVal, filterString)\<close> with the prompt accepted
  (\<^verbatim>\<open>cont\<close> true) and an output file that starts empty: \<^verbatim>\<open>filterVal\<close> is the text of
  the conditions, \<^verbatim>\<open>filterString\<close> the mode.
\<close>

definition filterLog :: "line list \<Rightarrow> string \<Rightarrow> string \<Rightarrow> json run" where
  "filterLog file filterVal filterString =
     filter_lines filterString (parseFilters filterVal) file []"


subsection \<open>Notions used to state the properties of the filter\<close>

text \<open>
  The resolution of a field path as the specification words it: descend one segment at a
  time through nested mappings; \<open>None\<close> when a segment is missing or the value reached is
  not a mapping.
\<close>

fun resolve :: "json \<Rightarrow> string list \<Rightarrow> json option" where
  "resolve v [] = Some v"
| "resolve (JObj kvs) (k # ks) = (case map_of kvs k of None \<Rightarrow> None | Some w \<Rightarrow> resolve w ks)"
| "resolve v (k # ks) = None"

text \<open>
  Every value that the descent reaches before the last segment is a mapping: the chained
  subscripts of the code then raise nothing but \<open>KeyError\<close>.
\<close>

fun well_nested :: "json \<Rightarrow> string list \<Rightarrow> bool" where
  "well_nested v [] = True"
| "well_nested (JObj kvs) (k # ks) = (case map_of kvs k of None \<Rightarrow> True | Some w \<Rightarrow> well_nested w ks)"
| "well_nested v (k # ks) = False"

text \<open>
  The two values that the loop body computes from an item of the filter list,
  \<^verbatim>\<open>item[0].split(".")\<close> and \<^verbatim>\<open>item[1].strip()\<close>, and the outcome of the item in
  each mode: whether the record is written (include), whether the counter is incremented
  (exclude), or the exception that leaves the loop.
\<close>

definition cond_fields :: "string list \<Rightarrow> string list" where
  "cond_fields item = str_split (CHR ''.'') (item ! 0)"

definition cond_value :: "string list \<Rightarrow> string" where
  "cond_value item = strip (item ! 1)"

definition include_cond :: "json \<Rightarrow> string list \<Rightarrow> error + bool" where
  "include_cond log item =
     (if length item < 2 then Inl IndexError
      else include_item log (cond_fields item) (cond_value item))"

definition exclude_cond :: "json \<Rightarrow> string list \<Rightarrow> error + bool" where
  "exclude_cond log item =
     (if length item < 2 then Inl IndexError
      else exclude_item log (cond_fields item) (cond_value item))"

text \<open>
  A condition matches a record when its path resolves, in the sense of the specification, to
  a string equal to the expected value. A condition is plain on a record when it has a value
  and a path of one to three segments, every value reached before the last segment is a
  mapping, and the record holds an \<^verbatim>\<open>insertId\<close> in case the path does not resolve: the
  conditions on which include mode raises nothing.
\<close>

definition matches :: "json \<Rightarrow> string list \<Rightarrow> bool" where
  "matches log item = (resolve log (cond_fields item) = Some (JStr (cond_value item)))"

definition plain_cond :: "json \<Rightarrow> string list \<Rightarrow> bool" where
  "plain_cond log item =
     (2 \<le> length item \<and> length (cond_fields item) \<le> 3 \<and> well_nested log (cond_fields item)
      \<and> (resolve log (cond_fields item) = None \<longrightarrow>
            (case getitem log ''insertId'' of Inl e \<Rightarrow> False | Inr i \<Rightarrow> True)))"

text \<open>
  The string form of a scalar as \<^verbatim>\<open>str\<close> gives it, to state the comparison "by string
  representation" of the specification: a string is its own form, an integer is written in
  decimal, a boolean is \<^verbatim>\<open>True\<close> or \<^verbatim>\<open>False\<close>, and \<^verbatim>\<open>None\<close> is \<^verbatim>\<open>None\<close>. The
  forms of floats, lists and dictionaries are left out.
\<close>

fun decimal :: "nat \<Rightarrow> string" where
  "decimal n = (if n < 10 then [char_of (48 + n)] else decimal (n div 10) @ [char_of (48 + n mod 10)])"

fun str_form :: "json \<Rightarrow> string option" where
  "str_form (JStr s) = Some s"
| "str_form (JBool b) = Some (if b then ''True'' else ''False'')"
| "str_form (JInt n) = Some (if n < 0 then CHR ''-'' # decimal (nat (- n)) else decimal (nat n))"
| "str_form JNull = Some ''None''"
| "str_form v = None"


section \<open>Dates and times\<close>

text \<open>
  A naive \<^verbatim>\<open>datetime\<close> is a point of the proleptic Gregorian calendar with microsecond
  resolution; equality, order and arithmetic of \<^verbatim>\<open>datetime\<close> objects are those of the
  number of microseconds since 0001-01-01 00:00:00, which represents the object here. A
  \<^verbatim>\<open>timedelta\<close> is a number of microseconds. The calendar functions are those of the
  \<^verbatim>\<open>datetime\<close> module.
\<close>

type_synonym datetime = int
type_synonym timedelta = int

definition is_leap :: "int \<Rightarrow> bool" where
  "is_leap y = (y mod 4 = 0 \<and> (y mod 100 \<noteq> 0 \<or> y mod 400 = 0))"

definition days_before_year :: "int \<Rightarrow> int" where
  "days_before_year year = (let y = year - 1 in y * 365 + y div 4 - y div 100 + y div 400)"

definition days_in_month :: "int \<Rightarrow> int \<Rightarrow> int" where
  "days_in_month year month =
     (if month = 2 \<and> is_leap year then 29
      else [31, 28, 31, 30, 31, 30, 31, 31, 30, 31, 30, 31] ! nat (month - 1))"

definition days_before_month :: "int \<Rightarrow> int \<Rightarrow> int" where
  "days_before_month year month =
     [0, 31, 59, 90, 120, 151, 181, 212, 243, 273, 304, 334] ! nat (month - 1)
       + (if month > 2 \<and> is_leap year then 1 else 0)"

definition ymd2ord :: "int \<Rightarrow> int \<Rightarrow> int \<Rightarrow> int" where
  "ymd2ord year month day = days_before_year year + days_before_month year month + day"

text \<open>The first instant after \<^verbatim>\<open>datetime.max\<close>: the start of the year 10000.\<close>

definition datetime_end :: int where
  "datetime_end = 3652059 * 86400000000"

text \<open>
  \<^verbatim>\<open>datetime(year, month, day, hour, minute, second)\<close>: \<open>ValueError\<close> outside the years
  1 to 9999, for a day the month does not have, or a field of the time out of range.
\<close>

definition mk_datetime :: "int \<Rightarrow> int \<Rightarrow> int \<Rightarrow> int \<Rightarrow> int \<Rightarrow> int \<Rightarrow> error + datetime" where
  "mk_datetime year month day hour minute second =
     (if 1 \<le> year \<and> year \<le> 9999 \<and> 1 \<le> month \<and> month \<le> 12
         \<and> 1 \<le> day \<and> day \<le> days_in_month year month
         \<and> 0 \<le> hour \<and> hour \<le> 23 \<and> 0 \<le> minute \<and> minute \<le> 59
         \<and> 0 \<le> second \<and> second \<le> 59
      then Inr (((((ymd2ord year month day - 1) * 24 + hour) * 60 + minute) * 60 + second) * 1000000)
      else Inl ValueError)"

text \<open>
  \<^verbatim>\<open>datetime + timedelta\<close> and \<^verbatim>\<open>datetime - timedelta\<close>: \<open>OverflowError\<close> when the
  result leaves the years 1 to 9999.
\<close>

definition datetime_add :: "datetime \<Rightarrow> timedelta \<Rightarrow> error + datetime" where
  "datetime_add t d = (if 0 \<le> t + d \<and> t + d < datetime_end then Inr (t + d) else Inl OverflowError)"

definition datetime_sub :: "datetime \<Rightarrow> timedelta \<Rightarrow> error + datetime" where
  "datetime_sub t d = (if 0 \<le> t - d \<and> t - d < datetime_end then Inr (t - d) else Inl OverflowError)"

text \<open>
  \<^verbatim>\<open>timedelta(minutes=(size/2))\<close> for an integer \<^verbatim>\<open>size\<close> (the option is declared
  \<^verbatim>\<open>type=int\<close>). The quotient is a float, a whole number or a whole number and a half, and
  the constructor turns it into microseconds without rounding: the size, written \<open>sz\<close>
  below, times thirty seconds. A \<^verbatim>\<open>timedelta\<close> holds at most 999999999 days in either direction, beyond
  which the constructor raises \<open>OverflowError\<close>; the quotient is exact far beyond that bound,
  and a size too large for a float raises \<open>OverflowError\<close> in the division.
\<close>

definition timedelta_half_minutes :: "int \<Rightarrow> error + timedelta" where
  "timedelta_half_minutes sz =
     (let us = sz * 30000000; days = us div 86400000000
      in if - 999999999 \<le> days \<and> days \<le> 999999999 then Inr us else Inl OverflowError)"

subsection \<open>\<^verbatim>\<open>datetime.strptime\<close>\<close>

text \<open>
  \<^verbatim>\<open>strptime\<close> turns the format into a regular expression, matches it at the start of the
  string, and refuses a string with text left after the match. A piece of the expression is
  modelled by the list of the ways it can match a prefix, in the order in which the regular
  expression engine tries them: the number read, and the rest of the string.
\<close>

type_synonym 'a matcher = "string \<Rightarrow> ('a \<times> string) list"

definition between :: "char \<Rightarrow> char \<Rightarrow> char \<Rightarrow> bool" where
  "between lo hi c = ((of_char lo :: nat) \<le> of_char c \<and> (of_char c :: nat) \<le> of_char hi)"

definition digit :: "char \<Rightarrow> bool" where
  "digit c = between (CHR ''0'') (CHR ''9'') c"

definition digit_val :: "char \<Rightarrow> int" where
  "digit_val c = int (of_char c) - 48"

definition two :: "(char \<Rightarrow> bool) \<Rightarrow> (char \<Rightarrow> bool) \<Rightarrow> int matcher" where
  "two p q s =
     (case s of
        a # b # r \<Rightarrow> if p a \<and> q b then [(digit_val a * 10 + digit_val b, r)] else []
      | _ \<Rightarrow> [])"

definition one :: "(char \<Rightarrow> bool) \<Rightarrow> int matcher" where
  "one p s = (case s of a # r \<Rightarrow> if p a then [(digit_val a, r)] else [] | [] \<Rightarrow> [])"

text \<open>\<^verbatim>\<open>%Y\<close> is \<^verbatim>\<open>\d\d\d\d\<close>.\<close>

definition re_Y :: "int matcher" where
  "re_Y s =
     (case s of
        a # b # c # d # r \<Rightarrow>
          if digit a \<and> digit b \<and> digit c \<and> digit d
          then [(digit_val a * 1000 + digit_val b * 100 + digit_val c * 10 + digit_val d, r)]
          else []
      | _ \<Rightarrow> [])"

text \<open>\<^verbatim>\<open>%m\<close> is \<^verbatim>\<open>1[0-2]|0[1-9]|[1-9]\<close>.\<close>

definition re_m :: "int matcher" where
  "re_m s =
     two ((=) (CHR ''1'')) (between (CHR ''0'') (CHR ''2'')) s
     @ two ((=) (CHR ''0'')) (between (CHR ''1'') (CHR ''9'')) s
     @ one (between (CHR ''1'') (CHR ''9'')) s"

text \<open>\<^verbatim>\<open>%d\<close> is \<^verbatim>\<open>3[0-1]|[1-2]\d|0[1-9]|[1-9]| [1-9]\<close>.\<close>

definition re_d :: "int matcher" where
  "re_d s =
     two ((=) (CHR ''3'')) (between (CHR ''0'') (CHR ''1'')) s
     @ two (between (CHR ''1'') (CHR ''2'')) digit s
     @ two ((=) (CHR ''0'')) (between (CHR ''1'') (CHR ''9'')) s
     @ one (between (CHR ''1'') (CHR ''9'')) s
     @ (case s of
          a # b # r \<Rightarrow>
            if a = CHR '' '' \<and> between (CHR ''1'') (CHR ''9'') b then [(digit_val b, r)] else []
        | _ \<Rightarrow> [])"

text \<open>\<^verbatim>\<open>%H\<close> is \<^verbatim>\<open>2[0-3]|[0-1]\d|\d\<close>.\<close>

definition re_H :: "int matcher" where
  "re_H s =
     two ((=) (CHR ''2'')) (between (CHR ''0'') (CHR ''3'')) s
     @ two (between (CHR ''0'') (CHR ''1'')) digit s
     @ one digit s"

text \<open>\<^verbatim>\<open>%M\<close> is \<^verbatim>\<open>[0-5]\d|\d\<close>.\<close>

definition re_M :: "int matcher" where
  "re_M s = two (between (CHR ''0'') (CHR ''5'')) digit s @ one digit s"

text \<open>\<^verbatim>\<open>%S\<close> is \<^verbatim>\<open>6[0-1]|[0-5]\d|\d\<close>.\<close>

definition re_S :: "int matcher" where
  "re_S s =
     two ((=) (CHR ''6'')) (between (CHR ''0'') (CHR ''1'')) s
     @ two (between (CHR ''0'') (CHR ''5'')) digit s
     @ one digit s"

text \<open>A literal character of the format.\<close>

definition lit :: "char \<Rightarrow> string \<Rightarrow> string list" where
  "lit c s = (case s of a # r \<Rightarrow> if a = c then [r] else [] | [] \<Rightarrow> [])"

text \<open>The letter \<^verbatim>\<open>T\<close> of the format: the expression is compiled ignoring case.\<close>

definition lit_T :: "string \<Rightarrow> string list" where
  "lit_T s = (case s of a # r \<Rightarrow> if a = CHR ''T'' \<or> a = CHR ''t'' then [r] else [] | [] \<Rightarrow> [])"

text \<open>A space of the format becomes \<^verbatim>\<open>\s+\<close>: one or more white space characters, greedy.\<close>

fun spaces :: "string \<Rightarrow> string list" where
  "spaces [] = []"
| "spaces (a # r) = (if isspace a then spaces r @ [r] else [])"

text \<open>
  The expression of \<^verbatim>\<open>%Y-%m-%d?%H:%M:%S\<close>, where \<open>sep\<close> stands for the character
  between date and time (\<open>spaces\<close> or \<open>lit_T\<close>).
\<close>

definition strptime_regex ::
  "(string \<Rightarrow> string list) \<Rightarrow> string \<Rightarrow> ((int \<times> int \<times> int \<times> int \<times> int \<times> int) \<times> string) list" where
  "strptime_regex sep s =
     [((Y, m, d, H, M, S), r11).
        (Y, r1) \<leftarrow> re_Y s, r2 \<leftarrow> lit (CHR ''-'') r1,
        (m, r3) \<leftarrow> re_m r2, r4 \<leftarrow> lit (CHR ''-'') r3,
        (d, r5) \<leftarrow> re_d r4, r6 \<leftarrow> sep r5,
        (H, r7) \<leftarrow> re_H r6, r8 \<leftarrow> lit (CHR '':'') r7,
        (M, r9) \<leftarrow> re_M r8, r10 \<leftarrow> lit (CHR '':'') r9,
        (S, r11) \<leftarrow> re_S r10]"

text \<open>
  \<^verbatim>\<open>datetime.strptime(s, format)\<close>: \<open>ValueError\<close> when the expression does not match,
  when text remains after the first match, and when the fields read are not a date and a
  time (year 0, 30 February, second 60).
\<close>

definition strptime :: "(string \<Rightarrow> string list) \<Rightarrow> string \<Rightarrow> error + datetime" where
  "strptime sep s =
     (case strptime_regex sep s of
        [] \<Rightarrow> Inl ValueError
      | ((Y, m, d, H, M, S), rest) # others \<Rightarrow>
          if rest \<noteq> [] then Inl ValueError else mk_datetime Y m d H M S)"

section \<open>The temporal window\<close>

text \<open>
  \<^verbatim>\<open>convertTimeString\<close>, with the format \<^verbatim>\<open>'%Y-%m-%d %H:%M:%S'\<close>: a \<open>ValueError\<close> is
  caught and the program exits.
\<close>

definition convertTimeString :: "string \<Rightarrow> error + datetime" where
  "convertTimeString s =
     (case strptime spaces s of
        Inl e \<Rightarrow> if e = ValueError then Inl SystemExit else Inl e
      | Inr dateTimeVal \<Rightarrow> Inr dateTimeVal)"

text \<open>
  \<^verbatim>\<open>getTimeDeltas\<close>: the start is computed first, then the end; the handler of
  \<open>ValueError\<close> exits, any other exception leaves the function.
\<close>

definition getTimeDeltas :: "datetime \<Rightarrow> int \<Rightarrow> error + datetime \<times> datetime" where
  "getTimeDeltas dateTimeVal sz =
     (case (case timedelta_half_minutes sz of
              Inl e \<Rightarrow> Inl e
            | Inr d1 \<Rightarrow>
                (case datetime_sub dateTimeVal d1 of
                   Inl e \<Rightarrow> Inl e
                 | Inr startDateTime \<Rightarrow>
                     (case timedelta_half_minutes sz of
                        Inl e \<Rightarrow> Inl e
                      | Inr d2 \<Rightarrow>
                          (case datetime_add dateTimeVal d2 of
                             Inl e \<Rightarrow> Inl e
                           | Inr endDateTime \<Rightarrow> Inr (startDateTime, endDateTime)))))
      of Inl e \<Rightarrow> if e = ValueError then Inl SystemExit else Inl e
       | Inr w \<Rightarrow> Inr w)"

text \<open>
  \<^verbatim>\<open>datetime.strptime(log['timestamp'][0:19], '%Y-%m-%dT%H:%M:%S')\<close>: the subscript raises
  \<open>KeyError\<close> or \<open>TypeError\<close>; the slice of a string is its first 19 characters; the
  slice of a list is a list, which \<^verbatim>\<open>strptime\<close> refuses with \<open>TypeError\<close>; a number, a
  boolean and \<^verbatim>\<open>None\<close> cannot be sliced, nor can a dictionary (\<open>TypeError\<close> for the
  unhashable slice; from Python 3.12 on a \<open>KeyError\<close>, which ends the run alike).
\<close>

definition timestamp_of :: "json \<Rightarrow> error + datetime" where
  "timestamp_of log =
     (case getitem log ''timestamp'' of
        Inl e \<Rightarrow> Inl e
      | Inr v \<Rightarrow> (case v of JStr s \<Rightarrow> strptime lit_T (take 19 s) | _ \<Rightarrow> Inl TypeError))"

text \<open>
  Modelled from the spec: the instant that the text of a timestamp field denotes when its
  fraction of a second is read as well, to compare it with what the code reads. The first 19
  characters give date and time; a fraction of one to six digits and the letter \<^verbatim>\<open>Z\<close>
  may follow.
\<close>

definition instant_of :: "string \<Rightarrow> error + datetime" where
  "instant_of s =
     (case strptime lit_T (take 19 s) of
        Inl e \<Rightarrow> Inl e
      | Inr t \<Rightarrow>
          (case drop 19 s of
             [] \<Rightarrow> Inr t
           | c # rest \<Rightarrow>
               if c = CHR ''.'' then
                 (let ds = takeWhile digit rest
                  in if 1 \<le> length ds \<and> length ds \<le> 6 \<and> dropWhile digit rest = ''Z''
                     then Inr (t + foldl (\<lambda>n c. n * 10 + digit_val c) 0 ds * 10 ^ (6 - length ds))
                     else Inl ValueError)
               else if c # rest = ''Z'' then Inr t
               else Inl ValueError))"

text \<open>
  The loop \<^verbatim>\<open>for line in f\<close>, which \<^verbatim>\<open>timeslice\<close> and \<^verbatim>\<open>timeframe\<close> spell out in
  the same words: decode the line, read its timestamp, write the record when it lies between
  the two bounds. Nothing in the loop catches an exception.
\<close>

fun window_lines :: "datetime \<Rightarrow> datetime \<Rightarrow> line list \<Rightarrow> json list \<Rightarrow> json run" where
  "window_lines startDateTime endDateTime [] output = (output, None)"
| "window_lines startDateTime endDateTime (ln # lns) output =
     (case ln of
        Inl e \<Rightarrow> (output, Some e)
      | Inr log \<Rightarrow>
          (case timestamp_of log of
             Inl e \<Rightarrow> (output, Some e)
           | Inr tmp \<Rightarrow>
               window_lines startDateTime endDateTime lns
                 (if tmp \<ge> startDateTime \<and> tmp \<le> endDateTime then writeOutput log output
                  else output)))"

text \<open>
  \<^verbatim>\<open>timeslice(file, cont, output, size, dateTimeString)\<close> and
  \<^verbatim>\<open>timeframe(file, cont, output, timeframe)\<close>, with the prompt accepted and an output file
  that starts empty. Each computes its two bounds, then runs the loop. In \<^verbatim>\<open>timeframe\<close>
  the handler of \<open>ValueError\<close> exits as well; \<^verbatim>\<open>tmp[1]\<close> raises \<open>IndexError\<close> when the
  text has no \<^verbatim>\<open>>\<close>.
\<close>

definition timeslice_window :: "int \<Rightarrow> string \<Rightarrow> error + datetime \<times> datetime" where
  "timeslice_window sz dateTimeString =
     (case convertTimeString dateTimeString of
        Inl e \<Rightarrow> Inl e
      | Inr dateTimeVal \<Rightarrow> getTimeDeltas dateTimeVal sz)"

definition timeslice :: "line list \<Rightarrow> int \<Rightarrow> string \<Rightarrow> json run" where
  "timeslice file sz dateTimeString =
     (case timeslice_window sz dateTimeString of
        Inl e \<Rightarrow> ([], Some e)
      | Inr (startDateTime, endDateTime) \<Rightarrow> window_lines startDateTime endDateTime file [])"

definition timeframe_window :: "string \<Rightarrow> error + datetime \<times> datetime" where
  "timeframe_window tf =
     (case (let tmp = str_split (CHR ''>'') tf
            in case py_index tmp 0 of
                 Inl e \<Rightarrow> Inl e
               | Inr t0 \<Rightarrow>
                   (case convertTimeString (strip t0) of
                      Inl e \<Rightarrow> Inl e
                    | Inr startDateTime \<Rightarrow>
                        (case py_index tmp 1 of
                           Inl e \<Rightarrow> Inl e
                         | Inr t1 \<Rightarrow>
                             (case convertTimeString (strip t1) of
                                Inl e \<Rightarrow> Inl e
                              | Inr endDateTime \<Rightarrow> Inr (startDateTime, endDateTime)))))
      of Inl e \<Rightarrow> if e = ValueError then Inl SystemExit else Inl e
       | Inr w \<Rightarrow> Inr w)"

definition timeframe :: "line list \<Rightarrow> string \<Rightarrow> json run" where
  "timeframe file tf =
     (case timeframe_window tf of
        Inl e \<Rightarrow> ([], Some e)
      | Inr (startDateTime, endDateTime) \<Rightarrow> window_lines startDateTime endDateTime file [])"


section \<open>The format normalizer\<close>

text \<open>The newline character.\<close>

definition nl :: char where
  "nl = CHR 0x0A"

text \<open>
  \<^verbatim>\<open>for line in f\<close> on a text file: the text is cut after every newline, which stays at
  the end of its line; the last line has none when the text does not end with one. The text
  is the one that text mode delivers, in which every line end is a single newline.
\<close>

fun readlines :: "string \<Rightarrow> string list" where
  "readlines [] = []"
| "readlines (c # cs) =
     (if c = nl then [c] # readlines cs
      else (case readlines cs of [] \<Rightarrow> [[c]] | l # ls \<Rightarrow> (c # l) # ls))"

text \<open>
  The loop of \<^verbatim>\<open>gcloudFormatter\<close>. The state is the buffer \<^verbatim>\<open>log\<close> and the output
  file, which receives the buffer as it is (\<^verbatim>\<open>encode\<close> false) at each closing line; the
  buffer then restarts as a newline. \<^verbatim>\<open>line[:-2]\<close> and \<^verbatim>\<open>line[:-1]\<close> drop the last two
  characters and the last one. The counters \<^verbatim>\<open>count\<close> and \<^verbatim>\<open>notify\<close> only feed the
  log messages.
\<close>

fun format_lines :: "string list \<Rightarrow> string \<Rightarrow> string list \<Rightarrow> string list" where
  "format_lines [] log output = output"
| "format_lines (line # lines) log output =
     (if startswith (strip line) ''['' then format_lines lines log output
      else if startswith line ''  {'' then format_lines lines (log @ strip line) output
      else if startswith line ''  }'' \<and> endswith (strip line) '','' then
        format_lines lines [nl] (writeOutput (log @ strip (take (length line - 2) line)) output)
      else if startswith line ''  }'' then
        format_lines lines [nl] (writeOutput (log @ strip (take (length line - 1) line)) output)
      else if startswith line '']'' then format_lines lines log output
      else if length line > 5 then format_lines lines (log @ strip line) output
      else format_lines lines log output)"

text \<open>
  \<^verbatim>\<open>gcloudFormatter(file, output)\<close> on the text of the input file, with an output file
  that starts empty: the list of the strings written, whose concatenation is the text of
  the output file.
\<close>

definition gcloudFormatter :: "string \<Rightarrow> string list" where
  "gcloudFormatter file = format_lines (readlines file) [] []"

subsection \<open>Notions used to state the properties of the normalizer\<close>

text \<open>\<^verbatim>\<open>"\n".join(rs)\<close>: the records with one newline between two of them and none at the end.\<close>

definition join_lines :: "string list \<Rightarrow> string" where
  "join_lines rs = (case rs of [] \<Rightarrow> [] | r # rest \<Rightarrow> r @ concat (map (\<lambda>x. nl # x) rest))"

text \<open>
  The records in an output file of the normalizer: the first write as it stands, each later
  write without its first character, the newline that the buffer restarts with.
\<close>

definition records_of :: "string list \<Rightarrow> string list" where
  "records_of output = (case output of [] \<Rightarrow> [] | c # cs \<Rightarrow> c # map tl cs)"

text \<open>
  The invariant of the loop on the output file: the first write is not empty and holds no
  newline; each later write is a newline followed by a text that is not empty and holds no
  other newline. On the buffer: it holds no newline as long as nothing has been written, and
  is a newline followed by a text without newline afterwards.
\<close>

definition chunks_ok :: "string list \<Rightarrow> bool" where
  "chunks_ok output =
     (case output of
        [] \<Rightarrow> True
      | c # cs \<Rightarrow> c \<noteq> [] \<and> nl \<notin> set c \<and> (\<forall>x\<in>set cs. \<exists>b. x = nl # b \<and> b \<noteq> [] \<and> nl \<notin> set b))"

definition buffer_ok :: "string \<Rightarrow> string list \<Rightarrow> bool" where
  "buffer_ok log output =
     (if output = [] then nl \<notin> set log else (\<exists>b. log = nl # b \<and> nl \<notin> set b))"

text \<open>
  Modelled from the spec: the layout of the normalizer's input, which the upstream export
  tool produces and the repository does not contain. One opening line \<^verbatim>\<open>[\<close>; each array
  element an opening line \<^verbatim>\<open>  {\<close>, its interior lines, and a closing line \<^verbatim>\<open>  }\<close>,
  followed by a comma unless the element is the last; one closing line \<^verbatim>\<open>]\<close>. An interior
  line is indented by four spaces or more, is not blank, and ends with the only newline it
  contains.
\<close>

definition element :: "string list \<Rightarrow> bool \<Rightarrow> string list" where
  "element body more =
     [''  {'' @ [nl]] @ body @ [''  }'' @ (if more then '','' else []) @ [nl]]"

fun elements :: "string list list \<Rightarrow> string list" where
  "elements [] = []"
| "elements [b] = element b False"
| "elements (b # b' # bs) = element b True @ elements (b' # bs)"

definition array_text :: "string list list \<Rightarrow> string" where
  "array_text bodies = concat ([''['' @ [nl]] @ elements bodies @ ['']'' @ [nl]])"

definition interior :: "string \<Rightarrow> bool" where
  "interior l =
     (startswith l ''    '' \<and> list_ex (\<lambda>c. \<not> isspace c) l \<and> last l = nl \<and> nl \<notin> set (butlast l))"

text \<open>
  What the loop makes of one element: the brace, the trimmed interior lines whose trimmed
  form does not start with \<^verbatim>\<open>[\<close>, and the closing brace.
\<close>

definition record_of :: "string list \<Rightarrow> string" where
  "record_of body =
     ''{'' @ concat (map strip (filter (\<lambda>l. \<not> startswith (strip l) ''['') body)) @ ''}''"

text \<open>The writes that the elements of an array cause, for the buffer \<open>log\<close> they start with.\<close>

definition emitted :: "string \<Rightarrow> string list list \<Rightarrow> string list" where
  "emitted log bodies =
     (case bodies of [] \<Rightarrow> [] | b # bs \<Rightarrow> (log @ record_of b) # map (\<lambda>b. nl # record_of b) bs)"


section \<open>Properties of the path filter\<close>

lemma getpath_resolve:
  "well_nested v ks \<Longrightarrow> getpath v ks = (case resolve v ks of None \<Rightarrow> Inl KeyError | Some w \<Rightarrow> Inr w)"
  by (induction v ks rule: resolve.induct) (auto split: option.splits)

lemma getpath_not_nested: "\<not> well_nested v ks \<Longrightarrow> getpath v ks = Inl TypeError"
  by (induction v ks rule: well_nested.induct) (auto split: option.splits)

lemma length_1_3_cases:
  assumes "1 \<le> length fs" "length fs \<le> 3"
  obtains a where "fs = [a]" | a b where "fs = [a, b]" | a b c where "fs = [a, b, c]"
  using assms by (cases fs; simp; (cases "tl fs"; simp; (cases "tl (tl fs)"; simp))) 

lemma branches_upto3:
  assumes "1 \<le> length fs" "length fs \<le> 3"
  shows "branches cmp log fs value = (case getpath log fs of Inl e \<Rightarrow> Inl e | Inr v \<Rightarrow> Inr (cmp v value))"
  using assms by (elim length_1_3_cases) (simp_all add: branches_def)

lemma branches_4:
  assumes "length fs = 4"
  shows "branches cmp log fs value = (case getitem log (fs ! 0) of Inl e \<Rightarrow> Inl e | Inr a \<Rightarrow> Inl TypeError)"
  using assms by (simp add: branches_def str_getitem_def split: sum.splits)

lemma branches_deep:
  assumes "4 < length fs"
  shows "branches cmp log fs value = Inr False"
  using assms by (simp add: branches_def)

lemma str_split_nonempty: "str_split sep s \<noteq> []"
  by (induction s) (auto split: list.splits)

lemma py_eq_iff: "py_eq v value = (v = JStr value)"
  by (cases v) auto

lemma item_step_include:
  "item_step ''include'' log item st =
     (case include_cond log item of Inl e \<Rightarrow> Inl e
      | Inr b \<Rightarrow> Inr (if b then (fst st @ [log], snd st) else st))"
  by (auto simp: item_step_def include_cond_def py_index_def cond_fields_def cond_value_def
      writeOutput_def Let_def split: sum.splits)

lemma item_step_exclude:
  "item_step ''exclude'' log item st =
     (case exclude_cond log item of Inl e \<Rightarrow> Inl e
      | Inr b \<Rightarrow> Inr (if b then (fst st, snd st + 1) else st))"
  by (auto simp: item_step_def exclude_cond_def py_index_def cond_fields_def cond_value_def
      Let_def split: sum.splits)

lemma items_loop_append:
  "items_loop m log (xs @ ys) st =
     (case items_loop m log xs st of (st', Some e) \<Rightarrow> (st', Some e)
      | (st', None) \<Rightarrow> items_loop m log ys st')"
  by (induction xs arbitrary: st) (auto split: sum.splits)

lemma items_loop_include_ok:
  "\<forall>item\<in>set items. \<exists>b. include_cond log item = Inr b \<Longrightarrow>
   items_loop ''include'' log items (out, n) =
     ((out @ replicate (length (filter (\<lambda>i. include_cond log i = Inr True) items)) log, n), None)"
proof (induction items arbitrary: out)
  case Nil
  then show ?case by simp
next
  case (Cons item items)
  then obtain b where b: "include_cond log item = Inr b" by auto
  from Cons have rest: "\<forall>i\<in>set items. \<exists>b. include_cond log i = Inr b" by simp
  show ?case
    using Cons.IH [OF rest] b by (cases b) (simp_all add: item_step_include replicate_app_Cons_same)
qed

lemma items_loop_exclude_ok:
  "\<forall>item\<in>set items. \<exists>b. exclude_cond log item = Inr b \<Longrightarrow>
   items_loop ''exclude'' log items (out, n) =
     ((out, n + length (filter (\<lambda>i. exclude_cond log i = Inr True) items)), None)"
proof (induction items arbitrary: n)
  case Nil
  then show ?case by simp
next
  case (Cons item items)
  then obtain b where b: "exclude_cond log item = Inr b" by auto
  from Cons have rest: "\<forall>i\<in>set items. \<exists>b. exclude_cond log i = Inr b" by simp
  show ?case
    using Cons.IH [OF rest] b by (cases b) (simp_all add: item_step_exclude)
qed

lemma length_filter_eq_length: "(length (filter P xs) = length xs) = (\<forall>x\<in>set xs. P x)"
proof (induction xs)
  case Nil
  then show ?case by simp
next
  case (Cons x xs)
  have le: "length (filter P xs) \<le> length xs" by simp
  show ?case
  proof (cases "P x")
    case True
    then show ?thesis using Cons by simp
  next
    case False
    from le have "length (filter P xs) \<noteq> Suc (length xs)" by linarith
    with False show ?thesis by simp
  qed
qed

lemma filter_lines_append:
  "filter_lines m fl (xs @ ys) out =
     (case filter_lines m fl xs out of (out', Some e) \<Rightarrow> (out', Some e)
      | (out', None) \<Rightarrow> filter_lines m fl ys out')"
  by (induction xs arbitrary: out) (auto split: prod.splits option.splits)

lemma filter_lines_sel:
  "(\<And>ln out. ln \<in> set lns \<Longrightarrow> filter_line m fl ln out = (out @ sel ln, None)) \<Longrightarrow>
   filter_lines m fl lns out = (out @ concat (map sel lns), None)"
  by (induction lns arbitrary: out) auto


lemma include_cond_depth4:
  assumes "2 \<le> length item" "length (cond_fields item) = 4"
    and "map_of kvs (cond_fields item ! 0) = Some a"
  shows "include_cond (JObj kvs) item = Inl TypeError"
  using assms by (simp add: include_cond_def include_item_def branches_4)

lemma exclude_cond_depth4:
  assumes "2 \<le> length item" "length (cond_fields item) = 4"
    and "map_of kvs (cond_fields item ! 0) = Some a"
  shows "exclude_cond (JObj kvs) item = Inl TypeError"
  using assms by (simp add: exclude_cond_def exclude_item_def branches_4)

lemma filter_line_raise:
  assumes "items_loop m log pre (output, 0) = (st, None)"
    and "item_step m log item st = Inl e"
  shows "filter_line m (pre @ item # post) (Inr log) output = (fst st, Some e)"
  using assms by (simp add: filter_line_def items_loop_append)

text \<open>
  C10. A condition whose path has four segments raises \<open>TypeError\<close> on every record that is
  a dictionary holding the first segment: the branch subscripts the string
  \<^verbatim>\<open>fields[1]\<close> with a string, and only \<open>KeyError\<close> is handled. In either mode the
  run ends there with what had been written before; the lines that follow are not read. The
  conditions \<open>pre\<close> before it on this record and the lines \<open>before\<close> are those that
  raise nothing.
\<close>

theorem four_segments_TypeError:
  assumes mode: "filterString = ''include'' \<or> filterString = ''exclude''"
    and item: "2 \<le> length item" "length (cond_fields item) = 4"
    and key: "map_of kvs (cond_fields item ! 0) = Some a"
    and pre: "items_loop filterString (JObj kvs) pre (output, 0) = (st, None)"
    and before: "filter_lines filterString (pre @ item # post) before out0 = (output, None)"
  shows "filter_lines filterString (pre @ item # post) (before @ Inr (JObj kvs) # rest) out0 =
           (fst st, Some TypeError)"
proof -
  have step: "item_step filterString (JObj kvs) item st = Inl TypeError"
    using mode
  proof
    assume "filterString = ''include''"
    then show ?thesis
      by (simp add: item_step_include include_cond_depth4 [OF item key])
  next
    assume "filterString = ''exclude''"
    then show ?thesis
      by (simp add: item_step_exclude exclude_cond_depth4 [OF item key])
  qed
  have "filter_line filterString (pre @ item # post) (Inr (JObj kvs)) output =
          (fst st, Some TypeError)"
    by (rule filter_line_raise [OF pre step])
  then show ?thesis
    by (simp add: filter_lines_append before)
qed

theorem four_segments_TypeError_witness:
  "filterLog
     [Inr (JObj [(''severity'', JStr ''NOTICE''), (''insertId'', JStr ''1'')]),
      Inr (JObj [(''severity'', JStr ''NOTICE''), (''a'', JObj [(''b'', JObj [(''c'', JObj [(''d'', JStr ''x'')])])])]),
      Inr (JObj [(''severity'', JStr ''NOTICE''), (''insertId'', JStr ''1'')])]
     ''severity=NOTICE,a.b.c.d=x,severity=INFO'' ''include'' =
   ([JObj [(''severity'', JStr ''NOTICE''), (''insertId'', JStr ''1'')],
     JObj [(''severity'', JStr ''NOTICE''), (''a'', JObj [(''b'', JObj [(''c'', JObj [(''d'', JStr ''x'')])])])]],
    Some TypeError)
   \<and> filterLog
     [Inr (JObj [(''severity'', JStr ''NOTICE''), (''insertId'', JStr ''1'')]),
      Inr (JObj [(''severity'', JStr ''NOTICE''), (''a'', JObj [(''b'', JObj [(''c'', JObj [(''d'', JStr ''x'')])])])]),
      Inr (JObj [(''severity'', JStr ''NOTICE''), (''insertId'', JStr ''1'')])]
     ''severity=NOTICE,a.b.c.d=x,severity=INFO'' ''exclude'' =
   ([], Some TypeError)"
proof -
  let ?kvs = "[(''severity'', JStr ''NOTICE''), (''a'', JObj [(''b'', JObj [(''c'', JObj [(''d'', JStr ''x'')])])])]"
  let ?r1 = "JObj [(''severity'', JStr ''NOTICE''), (''insertId'', JStr ''1'')]"
  have fl: "parseFilters ''severity=NOTICE,a.b.c.d=x,severity=INFO'' =
      [[''severity'', ''NOTICE'']] @ [''a.b.c.d'', ''x''] # [[''severity'', ''INFO'']]"
    by code_simp
  have item: "2 \<le> length [''a.b.c.d'', ''x'']" "length (cond_fields [''a.b.c.d'', ''x'']) = 4"
    by code_simp+
  have key: "map_of ?kvs (cond_fields [''a.b.c.d'', ''x''] ! 0) =
      Some (JObj [(''b'', JObj [(''c'', JObj [(''d'', JStr ''x'')])])])"
    by code_simp
  have pre: "items_loop ''include'' (JObj ?kvs) [[''severity'', ''NOTICE'']] ([?r1], 0) =
      (([?r1, JObj ?kvs], 0), None)"
    by code_simp
  have before: "filter_lines ''include''
      ([[''severity'', ''NOTICE'']] @ [''a.b.c.d'', ''x''] # [[''severity'', ''INFO'']]) [Inr ?r1] [] =
      ([?r1], None)"
    by code_simp
  have pre': "items_loop ''exclude'' (JObj ?kvs) [[''severity'', ''NOTICE'']] ([], 0) =
      (([], 0), None)"
    by code_simp
  have before': "filter_lines ''exclude''
      ([[''severity'', ''NOTICE'']] @ [''a.b.c.d'', ''x''] # [[''severity'', ''INFO'']]) [Inr ?r1] [] =
      ([], None)"
    by code_simp
  have inc: "filterLog [Inr ?r1, Inr (JObj ?kvs), Inr ?r1]
      ''severity=NOTICE,a.b.c.d=x,severity=INFO'' ''include'' = ([?r1, JObj ?kvs], Some TypeError)"
    using four_segments_TypeError [OF _ item key pre before, of "[Inr ?r1]"]
    by (simp add: filterLog_def fl)
  have exc: "filterLog [Inr ?r1, Inr (JObj ?kvs), Inr ?r1]
      ''severity=NOTICE,a.b.c.d=x,severity=INFO'' ''exclude'' = ([], Some TypeError)"
    using four_segments_TypeError [OF _ item key pre' before', of "[Inr ?r1]"]
    by (simp add: filterLog_def fl)
  from inc exc show ?thesis by (rule conjI)
qed

lemma cond_fields_nonempty: "1 \<le> length (cond_fields item)"
  using str_split_nonempty [of "CHR ''.''" "item ! 0"]
  by (cases "cond_fields item") (simp_all add: cond_fields_def)

lemma mismatch_iff:
  "(r = None \<or> (\<exists>v. r = Some v \<and> v \<noteq> w)) = (r \<noteq> Some w)"
  by (cases r) auto

lemma exclude_cond_shallow:
  assumes "2 \<le> length item" "length (cond_fields item) \<le> 3"
    and "well_nested log (cond_fields item)"
  shows "exclude_cond log item =
           Inr (resolve log (cond_fields item) \<noteq> Some (JStr (cond_value item)))"
  using assms cond_fields_nonempty [of item]
  by (cases "resolve log (cond_fields item)")
     (simp_all add: exclude_cond_def exclude_item_def branches_upto3 getpath_resolve
        py_ne_def py_eq_iff)

lemma include_cond_shallow:
  assumes "2 \<le> length item" "length (cond_fields item) \<le> 3"
    and "well_nested log (cond_fields item)"
  shows "include_cond log item =
           (case resolve log (cond_fields item) of
              Some v \<Rightarrow> Inr (v = JStr (cond_value item))
            | None \<Rightarrow> (case getitem log ''insertId'' of Inl e \<Rightarrow> Inl e | Inr i \<Rightarrow> Inr False))"
  using assms cond_fields_nonempty [of item]
  by (cases "resolve log (cond_fields item)")
     (simp_all add: include_cond_def include_item_def branches_upto3 getpath_resolve py_eq_iff)

lemma concat_map_if_filter:
  "concat (map (\<lambda>x. if P (f x) then [f x] else []) xs) = filter P (map f xs)"
  by (induction xs) simp_all

lemma plain_include: "plain_cond log item \<Longrightarrow> include_cond log item = Inr (matches log item)"
  using include_cond_shallow [of item log]
  by (auto simp: plain_cond_def matches_def split: option.splits sum.splits)

lemma plain_count:
  "\<forall>item\<in>set items. plain_cond log item \<Longrightarrow>
   filter (\<lambda>i. include_cond log i = Inr True) items = filter (matches log) items"
  by (rule filter_cong) (auto simp: plain_include)

lemma items_loop_plain:
  assumes "\<forall>item\<in>set items. plain_cond log item"
  shows "items_loop ''include'' log items (out, n) =
           ((out @ replicate (length (filter (matches log) items)) log, n), None)"
proof -
  have "\<forall>item\<in>set items. \<exists>b. include_cond log item = Inr b"
    using assms plain_include by blast
  then show ?thesis
    using items_loop_include_ok [of items log out n] plain_count [OF assms] by simp
qed

lemma item_step_shift:
  "item_step m log item (out, n) =
     (case item_step m log item ([], n) of Inl e \<Rightarrow> Inl e | Inr (w, n') \<Rightarrow> Inr (out @ w, n'))"
  by (auto simp: item_step_def writeOutput_def Let_def split: sum.splits)

lemma items_loop_shift:
  "items_loop m log items (out, n) =
     (case items_loop m log items ([], n) of ((w, n'), e) \<Rightarrow> ((out @ w, n'), e))"
proof (induction items arbitrary: out n)
  case Nil
  then show ?case by simp
next
  case (Cons item items)
  show ?case
  proof (cases "item_step m log item ([], n)")
    case (Inl e)
    then show ?thesis using item_step_shift [of m log item out n] by simp
  next
    case (Inr st)
    obtain w n' where st: "st = (w, n')" by (cases st)
    have a: "item_step m log item (out, n) = Inr (out @ w, n')"
      using item_step_shift [of m log item out n] Inr st by simp
    show ?thesis
      using Cons.IH [of "out @ w" n'] Cons.IH [of w n'] a Inr st
      by (simp split: prod.splits)
  qed
qed

text \<open>
  C8, as amended. In include mode the conditions are evaluated in order and the record is
  written at once for each condition that matches. For plain conditions \<open>pre\<close>, the record
  is written exactly once per matching condition of \<open>pre\<close>, and these copies stand in the
  output in front of whatever the conditions \<open>rest\<close> after them write (first part). When
  the condition that follows \<open>pre\<close> raises, the run ends there with exactly these copies
  written and the remaining conditions not evaluated (second part). When all conditions are
  plain on all records, every record is written exactly as many times as it has matching
  conditions, the records in the order of the input (third part).
\<close>

theorem include_once_per_match:
  "((\<forall>item\<in>set pre. plain_cond log item) \<longrightarrow>
      fst (filter_line ''include'' (pre @ rest) (Inr log) output) =
        output @ replicate (length (filter (matches log) pre)) log
          @ fst (filter_line ''include'' rest (Inr log) []))
   \<and> ((\<forall>item\<in>set pre. plain_cond log item) \<and> include_cond log item = Inl e \<longrightarrow>
        filter_line ''include'' (pre @ item # post) (Inr log) output =
          (output @ replicate (length (filter (matches log) pre)) log, Some e))
   \<and> ((\<forall>ln\<in>set file. \<exists>rec. ln = Inr rec \<and>
           (\<forall>item\<in>set (parseFilters filterVal). plain_cond rec item)) \<longrightarrow>
        filterLog file filterVal ''include'' =
          (concat (map (\<lambda>ln. replicate
             (length (filter (matches (projr ln)) (parseFilters filterVal))) (projr ln)) file),
           None))"
proof (intro conjI impI)
  assume ok: "\<forall>item\<in>set pre. plain_cond log item"
  let ?k = "length (filter (matches log) pre)"
  have "fst (filter_line ''include'' (pre @ rest) (Inr log) output) =
          fst (fst (items_loop ''include'' log rest (output @ replicate ?k log, 0)))"
    by (simp add: filter_line_def items_loop_append items_loop_plain [OF ok]
        split: prod.splits option.splits)
  also have "\<dots> = (output @ replicate ?k log) @ fst (fst (items_loop ''include'' log rest ([], 0)))"
    using items_loop_shift [of "''include''" log rest "output @ replicate ?k log" 0]
    by (simp split: prod.splits)
  also have "fst (fst (items_loop ''include'' log rest ([], 0))) =
      fst (filter_line ''include'' rest (Inr log) [])"
    by (simp add: filter_line_def split: prod.splits option.splits)
  finally show "fst (filter_line ''include'' (pre @ rest) (Inr log) output) =
      output @ replicate ?k log @ fst (filter_line ''include'' rest (Inr log) [])"
    by simp
next
  assume h: "(\<forall>item\<in>set pre. plain_cond log item) \<and> include_cond log item = Inl e"
  let ?k = "length (filter (matches log) pre)"
  have pre: "items_loop ''include'' log pre (output, 0) = ((output @ replicate ?k log, 0), None)"
    using h by (simp add: items_loop_plain)
  have step: "item_step ''include'' log item (output @ replicate ?k log, 0) = Inl e"
    using h by (simp add: item_step_include)
  show "filter_line ''include'' (pre @ item # post) (Inr log) output =
      (output @ replicate ?k log, Some e)"
    using filter_line_raise [OF pre step] by simp
next
  let ?fl = "parseFilters filterVal"
  let ?sel = "\<lambda>ln. replicate (length (filter (matches (projr ln)) ?fl)) (projr ln)"
  assume ok: "\<forall>ln\<in>set file. \<exists>rec. ln = Inr rec \<and> (\<forall>item\<in>set ?fl. plain_cond rec item)"
  have "filter_line ''include'' ?fl ln out = (out @ ?sel ln, None)" if "ln \<in> set file" for ln out
  proof -
    from ok that obtain rec where rec: "ln = Inr rec"
      and items: "\<forall>item\<in>set ?fl. plain_cond rec item"
      by blast
    show ?thesis
      by (simp add: rec filter_line_def items_loop_plain [OF items])
  qed
  then have "filter_lines ''include'' ?fl file [] = ([] @ concat (map ?sel file), None)"
    by (rule filter_lines_sel)
  then show "filterLog file filterVal ''include'' = (concat (map ?sel file), None)"
    by (simp add: filterLog_def)
qed

theorem include_once_per_match_witness:
  "fst (filter_line ''include''
      ([[''a'', ''s''], [''b.c'', ''t''], [''b.d.e'', ''u''], [''z'', ''q'']] @ [[''a.b.c.d'', ''x'']])
      (Inr (JObj [(''a'', JStr ''s''),
                  (''b'', JObj [(''c'', JStr ''t''), (''d'', JObj [(''e'', JStr ''v'')])]),
                  (''insertId'', JStr ''1'')])) []) =
     [JObj [(''a'', JStr ''s''),
            (''b'', JObj [(''c'', JStr ''t''), (''d'', JObj [(''e'', JStr ''v'')])]),
            (''insertId'', JStr ''1'')],
      JObj [(''a'', JStr ''s''),
            (''b'', JObj [(''c'', JStr ''t''), (''d'', JObj [(''e'', JStr ''v'')])]),
            (''insertId'', JStr ''1'')]]
   \<and> filter_line ''include''
      ([[''a'', ''s''], [''b.c'', ''t''], [''b.d.e'', ''u''], [''z'', ''q'']]
         @ [''a.b.c.d'', ''x''] # [[''a'', ''s'']])
      (Inr (JObj [(''a'', JStr ''s''),
                  (''b'', JObj [(''c'', JStr ''t''), (''d'', JObj [(''e'', JStr ''v'')])]),
                  (''insertId'', JStr ''1'')])) [] =
     ([JObj [(''a'', JStr ''s''),
             (''b'', JObj [(''c'', JStr ''t''), (''d'', JObj [(''e'', JStr ''v'')])]),
             (''insertId'', JStr ''1'')],
       JObj [(''a'', JStr ''s''),
             (''b'', JObj [(''c'', JStr ''t''), (''d'', JObj [(''e'', JStr ''v'')])]),
             (''insertId'', JStr ''1'')]], Some TypeError)
   \<and> filterLog
      [Inr (JObj [(''a'', JStr ''s''), (''b'', JObj [(''c'', JStr ''t'')]), (''insertId'', JStr ''1'')]),
       Inr (JObj [(''a'', JStr ''t''), (''insertId'', JStr ''2'')])]
      ''a=s,b.c=t,a= s '' ''include'' =
     ([JObj [(''a'', JStr ''s''), (''b'', JObj [(''c'', JStr ''t'')]), (''insertId'', JStr ''1'')],
       JObj [(''a'', JStr ''s''), (''b'', JObj [(''c'', JStr ''t'')]), (''insertId'', JStr ''1'')],
       JObj [(''a'', JStr ''s''), (''b'', JObj [(''c'', JStr ''t'')]), (''insertId'', JStr ''1'')]],
      None)"
proof -
  let ?pre = "[[''a'', ''s''], [''b.c'', ''t''], [''b.d.e'', ''u''], [''z'', ''q'']]"
  let ?log = "JObj [(''a'', JStr ''s''),
                    (''b'', JObj [(''c'', JStr ''t''), (''d'', JObj [(''e'', JStr ''v'')])]),
                    (''insertId'', JStr ''1'')]"
  let ?item = "[''a.b.c.d'', ''x'']"
  let ?r1 = "JObj [(''a'', JStr ''s''), (''b'', JObj [(''c'', JStr ''t'')]), (''insertId'', JStr ''1'')]"
  let ?r2 = "JObj [(''a'', JStr ''t''), (''insertId'', JStr ''2'')]"
  let ?file = "[Inr ?r1, Inr ?r2] :: line list"
  let ?fv = "''a=s,b.c=t,a= s ''"
  have h1: "\<forall>item\<in>set ?pre. plain_cond ?log item"
    by code_simp
  have k1: "length (filter (matches ?log) ?pre) = 2"
    by code_simp
  have r: "fst (filter_line ''include'' [?item] (Inr ?log) []) = []"
    by code_simp
  have h2: "(\<forall>item\<in>set ?pre. plain_cond ?log item) \<and> include_cond ?log ?item = Inl TypeError"
    by code_simp
  have p1: "\<forall>item\<in>set (parseFilters ?fv). plain_cond ?r1 item"
    and p2: "\<forall>item\<in>set (parseFilters ?fv). plain_cond ?r2 item"
    by code_simp+
  have h3: "\<forall>ln\<in>set ?file. \<exists>rec. ln = Inr rec \<and> (\<forall>item\<in>set (parseFilters ?fv). plain_cond rec item)"
    using p1 p2 by simp
  have k3: "concat (map (\<lambda>ln. replicate
      (length (filter (matches (projr ln)) (parseFilters ?fv))) (projr ln)) ?file) = [?r1, ?r1, ?r1]"
    by code_simp
  note T = include_once_per_match [of ?pre ?log "[?item]" "[]" ?item TypeError "[[''a'', ''s'']]" ?file ?fv]
  have a: "fst (filter_line ''include'' (?pre @ [?item]) (Inr ?log) []) = [?log, ?log]"
    using T [THEN conjunct1, THEN mp, OF h1] unfolding k1 r
    by (simp add: numeral_2_eq_2)
  have b: "filter_line ''include'' (?pre @ ?item # [[''a'', ''s'']]) (Inr ?log) [] =
      ([?log, ?log], Some TypeError)"
    using T [THEN conjunct2, THEN conjunct1, THEN mp, OF h2] unfolding k1
    by (simp add: numeral_2_eq_2)
  have c: "filterLog ?file ?fv ''include'' = ([?r1, ?r1, ?r1], None)"
    using T [THEN conjunct2, THEN conjunct2, THEN mp, OF h3] unfolding k3 .
  from a b c show ?thesis by (intro conjI)
qed

text \<open>
  The claim C8 as stated fails: the record matches two of the three conditions and is
  written once. The condition between them runs its path through a string and raises
  \<open>TypeError\<close>, which ends the run before the third condition is evaluated; likewise with a
  path of four segments in the middle.
\<close>

theorem include_once_per_match_counterexample:
  "length (filter (matches (JObj [(''a'', JStr ''s'')])) (parseFilters ''a=s,a.b=x,a=s'')) = 2
   \<and> filterLog [Inr (JObj [(''a'', JStr ''s'')])] ''a=s,a.b=x,a=s'' ''include'' =
       ([JObj [(''a'', JStr ''s'')]], Some TypeError)
   \<and> length (filter (matches (JObj [(''a'', JStr ''s'')])) (parseFilters ''a=s,a.b.c.d=x,a=s'')) = 2
   \<and> filterLog [Inr (JObj [(''a'', JStr ''s'')])] ''a=s,a.b.c.d=x,a=s'' ''include'' =
       ([JObj [(''a'', JStr ''s'')]], Some TypeError)"
  by code_simp

text \<open>
  C2, as amended. For conditions of one to three segments, on a record in which every value
  reached before the last segment is a mapping, exclude mode writes the record exactly when
  every condition fails to resolve or resolves to a value other than the expected string.
  For a single condition of one segment, on records that are dictionaries holding the key or
  an \<^verbatim>\<open>insertId\<close>, include mode selects the records whose field is the expected string and
  exclude mode selects the others, both in the order of the input.
\<close>

theorem exclude_unanimous:
  "((\<forall>item\<in>set filterList. 2 \<le> length item \<and> length (cond_fields item) \<le> 3 \<and>
        well_nested log (cond_fields item)) \<longrightarrow>
      filter_line ''exclude'' filterList (Inr log) output =
        ((if \<forall>item\<in>set filterList.
                resolve log (cond_fields item) = None \<or>
                (\<exists>v. resolve log (cond_fields item) = Some v \<and> v \<noteq> JStr (cond_value item))
          then output @ [log] else output), None))
   \<and> ((2 \<le> length item \<and> cond_fields item = [k] \<and>
        (\<forall>ln\<in>set file. \<exists>kvs. ln = Inr (JObj kvs) \<and>
           (k \<in> dom (map_of kvs) \<or> ''insertId'' \<in> dom (map_of kvs)))) \<longrightarrow>
       filter_lines ''include'' [item] file [] =
         (filter (\<lambda>rec. resolve rec [k] = Some (JStr (cond_value item))) (map projr file), None) \<and>
       filter_lines ''exclude'' [item] file [] =
         (filter (\<lambda>rec. resolve rec [k] \<noteq> Some (JStr (cond_value item))) (map projr file), None))"
proof (intro conjI impI)
  assume ok: "\<forall>item\<in>set filterList. 2 \<le> length item \<and> length (cond_fields item) \<le> 3 \<and>
     well_nested log (cond_fields item)"
  then have out: "\<forall>item\<in>set filterList.
      exclude_cond log item = Inr (resolve log (cond_fields item) \<noteq> Some (JStr (cond_value item)))"
    by (simp add: exclude_cond_shallow)
  then have no_raise: "\<forall>item\<in>set filterList. \<exists>b. exclude_cond log item = Inr b"
    by blast
  have count: "(length (filter (\<lambda>i. exclude_cond log i = Inr True) filterList) = length filterList) =
      (\<forall>item\<in>set filterList. resolve log (cond_fields item) \<noteq> Some (JStr (cond_value item)))"
    using out by (simp add: length_filter_eq_length)
  show "filter_line ''exclude'' filterList (Inr log) output =
        ((if \<forall>item\<in>set filterList.
                resolve log (cond_fields item) = None \<or>
                (\<exists>v. resolve log (cond_fields item) = Some v \<and> v \<noteq> JStr (cond_value item))
          then output @ [log] else output), None)"
    by (simp add: filter_line_def items_loop_exclude_ok [OF no_raise] count mismatch_iff
        writeOutput_def)
next
  assume h: "2 \<le> length item \<and> cond_fields item = [k] \<and>
        (\<forall>ln\<in>set file. \<exists>kvs. ln = Inr (JObj kvs) \<and>
           (k \<in> dom (map_of kvs) \<or> ''insertId'' \<in> dom (map_of kvs)))"
  let ?P = "\<lambda>rec. resolve rec [k] = Some (JStr (cond_value item))"
  have "filter_line ''include'' [item] ln out = (out @ (if ?P (projr ln) then [projr ln] else []), None)"
    if "ln \<in> set file" for ln out
  proof -
    from h that obtain kvs where ln: "ln = Inr (JObj kvs)"
      and keys: "k \<in> dom (map_of kvs) \<or> ''insertId'' \<in> dom (map_of kvs)"
      by blast
    have "well_nested (JObj kvs) (cond_fields item)"
      using h by (simp split: option.splits)
    then have "include_cond (JObj kvs) item =
        (case resolve (JObj kvs) [k] of
           Some v \<Rightarrow> Inr (v = JStr (cond_value item))
         | None \<Rightarrow> (case getitem (JObj kvs) ''insertId'' of Inl e \<Rightarrow> Inl e | Inr i \<Rightarrow> Inr False))"
      using h include_cond_shallow [of item "JObj kvs"] by simp
    then have "include_cond (JObj kvs) item = Inr (?P (JObj kvs))"
      using keys by (auto split: option.splits)
    then show ?thesis
      by (simp add: ln filter_line_def item_step_include)
  qed
  then have "filter_lines ''include'' [item] file [] =
      ([] @ concat (map (\<lambda>ln. if ?P (projr ln) then [projr ln] else []) file), None)"
    by (rule filter_lines_sel)
  then show "filter_lines ''include'' [item] file [] = (filter ?P (map projr file), None)"
    using concat_map_if_filter [of ?P projr "file"] by simp
next
  assume h: "2 \<le> length item \<and> cond_fields item = [k] \<and>
        (\<forall>ln\<in>set file. \<exists>kvs. ln = Inr (JObj kvs) \<and>
           (k \<in> dom (map_of kvs) \<or> ''insertId'' \<in> dom (map_of kvs)))"
  let ?Q = "\<lambda>rec. resolve rec [k] \<noteq> Some (JStr (cond_value item))"
  have "filter_line ''exclude'' [item] ln out = (out @ (if ?Q (projr ln) then [projr ln] else []), None)"
    if "ln \<in> set file" for ln out
  proof -
    from h that obtain kvs where ln: "ln = Inr (JObj kvs)"
      by blast
    have "well_nested (JObj kvs) (cond_fields item)"
      using h by (simp split: option.splits)
    then have "exclude_cond (JObj kvs) item = Inr (?Q (JObj kvs))"
      using h exclude_cond_shallow [of item "JObj kvs"] by simp
    then show ?thesis
      by (simp add: ln filter_line_def item_step_exclude writeOutput_def)
  qed
  then have "filter_lines ''exclude'' [item] file [] =
      ([] @ concat (map (\<lambda>ln. if ?Q (projr ln) then [projr ln] else []) file), None)"
    by (rule filter_lines_sel)
  then show "filter_lines ''exclude'' [item] file [] = (filter ?Q (map projr file), None)"
    using concat_map_if_filter [of ?Q projr "file"] by simp
qed

theorem exclude_unanimous_witness:
  "filter_line ''exclude'' [[''a.b'', ''x''], [''c'', ''y'']]
      (Inr (JObj [(''a'', JObj [(''b'', JStr ''z'')])])) [] =
     ([JObj [(''a'', JObj [(''b'', JStr ''z'')])]], None)
   \<and> filter_lines ''include'' [[''severity'', ''NOTICE'']]
        [Inr (JObj [(''severity'', JStr ''NOTICE'')]),
         Inr (JObj [(''severity'', JStr ''ERROR''), (''insertId'', JStr ''2'')]),
         Inr (JObj [(''insertId'', JStr ''3'')])] [] =
       ([JObj [(''severity'', JStr ''NOTICE'')]], None)
   \<and> filter_lines ''exclude'' [[''severity'', ''NOTICE'']]
        [Inr (JObj [(''severity'', JStr ''NOTICE'')]),
         Inr (JObj [(''severity'', JStr ''ERROR''), (''insertId'', JStr ''2'')]),
         Inr (JObj [(''insertId'', JStr ''3'')])] [] =
       ([JObj [(''severity'', JStr ''ERROR''), (''insertId'', JStr ''2'')],
         JObj [(''insertId'', JStr ''3'')]], None)"
proof -
  let ?fl = "[[''a.b'', ''x''], [''c'', ''y'']]"
  let ?log = "JObj [(''a'', JObj [(''b'', JStr ''z'')])]"
  let ?item = "[''severity'', ''NOTICE'']"
  let ?file = "[Inr (JObj [(''severity'', JStr ''NOTICE'')]) :: line,
         Inr (JObj [(''severity'', JStr ''ERROR''), (''insertId'', JStr ''2'')]),
         Inr (JObj [(''insertId'', JStr ''3'')])]"
  have h1: "\<forall>item\<in>set ?fl. 2 \<le> length item \<and> length (cond_fields item) \<le> 3 \<and>
      well_nested ?log (cond_fields item)"
    by code_simp
  have c1: "\<forall>item\<in>set ?fl. resolve ?log (cond_fields item) = None \<or>
      (\<exists>v. resolve ?log (cond_fields item) = Some v \<and> v \<noteq> JStr (cond_value item))"
    unfolding mismatch_iff by code_simp
  have f: "cond_fields ?item = [''severity'']" "cond_value ?item = ''NOTICE''"
    by code_simp+
  have h2: "2 \<le> length ?item \<and> cond_fields ?item = [''severity''] \<and>
      (\<forall>ln\<in>set ?file. \<exists>kvs. ln = Inr (JObj kvs) \<and>
         (''severity'' \<in> dom (map_of kvs) \<or> ''insertId'' \<in> dom (map_of kvs)))"
    using f by auto
  have r1: "filter (\<lambda>rec. resolve rec [''severity''] = Some (JStr (cond_value ?item))) (map projr ?file) =
      [JObj [(''severity'', JStr ''NOTICE'')]]"
    by (simp add: f)
  have r2: "filter (\<lambda>rec. resolve rec [''severity''] \<noteq> Some (JStr (cond_value ?item))) (map projr ?file) =
      [JObj [(''severity'', JStr ''ERROR''), (''insertId'', JStr ''2'')], JObj [(''insertId'', JStr ''3'')]]"
    by (simp add: f)
  note T = exclude_unanimous [of ?fl ?log "[]" ?item "''severity''" ?file]
  have A: "filter_line ''exclude'' ?fl (Inr ?log) [] =
        ((if \<forall>item\<in>set ?fl. resolve ?log (cond_fields item) = None \<or>
               (\<exists>v. resolve ?log (cond_fields item) = Some v \<and> v \<noteq> JStr (cond_value item))
          then [] @ [?log] else []), None)"
    using T [THEN conjunct1, THEN mp, OF h1] .
  have B: "filter_lines ''include'' [?item] ?file [] =
         (filter (\<lambda>rec. resolve rec [''severity''] = Some (JStr (cond_value ?item))) (map projr ?file), None) \<and>
       filter_lines ''exclude'' [?item] ?file [] =
         (filter (\<lambda>rec. resolve rec [''severity''] \<noteq> Some (JStr (cond_value ?item))) (map projr ?file), None)"
    using T [THEN conjunct2, THEN mp, OF h2] .
  have A': "filter_line ''exclude'' ?fl (Inr ?log) [] = ([?log], None)"
    unfolding A if_P [OF c1] by simp
  show ?thesis
    using A' B unfolding r1 r2 by (intro conjI) blast+
qed

text \<open>
  The claim C2 as stated fails: a path that runs through a string does not resolve, yet the
  record is not written, the run ends with \<open>TypeError\<close>; and a record whose value at a
  path of five segments differs from the expected one is not written either, since no branch
  is taken for that length.
\<close>

theorem exclude_unanimous_counterexample:
  "resolve (JObj [(''a'', JStr ''s'')]) (cond_fields [''a.b'', ''x'']) = None
   \<and> filterLog [Inr (JObj [(''a'', JStr ''s'')])] ''a.b=x'' ''exclude'' = ([], Some TypeError)
   \<and> resolve (JObj [(''a'', JObj [(''b'', JObj [(''c'', JObj [(''d'', JObj [(''e'', JStr ''y'')])])])])])
        (cond_fields [''a.b.c.d.e'', ''x'']) = Some (JStr ''y'')
   \<and> filterLog [Inr (JObj [(''a'', JObj [(''b'', JObj [(''c'', JObj [(''d'', JObj [(''e'', JStr ''y'')])])])])])]
        ''a.b.c.d.e=x'' ''exclude'' = ([], None)"
  by code_simp

text \<open>
  C3. The code at the inputs where it departs from the claim: the value at a path of five or
  six segments equals the expected value and include mode writes nothing; at four segments
  the run ends with \<open>TypeError\<close>; in exclude mode a differing value at five segments does
  not count as a mismatch, so the record is not written. At three segments the record is
  written.
\<close>

theorem deep_paths_not_resolved:
  "resolve (JObj [(''a'', JObj [(''b'', JObj [(''c'', JObj [(''d'', JObj [(''e'', JStr ''x'')])])])])])
        (cond_fields [''a.b.c.d.e'', ''x'']) = Some (JStr ''x'')
   \<and> filterLog [Inr (JObj [(''a'', JObj [(''b'', JObj [(''c'', JObj [(''d'', JObj [(''e'', JStr ''x'')])])])])])]
        ''a.b.c.d.e=x'' ''include'' = ([], None)
   \<and> resolve (JObj [(''a'', JObj [(''b'', JObj [(''c'', JObj [(''d'', JObj [(''e'', JObj [(''f'', JStr ''x'')])])])])])])
        (cond_fields [''a.b.c.d.e.f'', ''x'']) = Some (JStr ''x'')
   \<and> filterLog [Inr (JObj [(''a'', JObj [(''b'', JObj [(''c'', JObj [(''d'', JObj [(''e'', JObj [(''f'', JStr ''x'')])])])])])])]
        ''a.b.c.d.e.f=x'' ''include'' = ([], None)
   \<and> resolve (JObj [(''a'', JObj [(''b'', JObj [(''c'', JObj [(''d'', JStr ''x'')])])])])
        (cond_fields [''a.b.c.d'', ''x'']) = Some (JStr ''x'')
   \<and> filterLog [Inr (JObj [(''a'', JObj [(''b'', JObj [(''c'', JObj [(''d'', JStr ''x'')])])])])]
        ''a.b.c.d=x'' ''include'' = ([], Some TypeError)
   \<and> filterLog [Inr (JObj [(''a'', JObj [(''b'', JObj [(''c'', JObj [(''d'', JObj [(''e'', JStr ''y'')])])])])])]
        ''a.b.c.d.e=x'' ''exclude'' = ([], None)
   \<and> filterLog [Inr (JObj [(''a'', JObj [(''b'', JObj [(''c'', JStr ''x'')])])])]
        ''a.b.c=x'' ''include'' = ([JObj [(''a'', JObj [(''b'', JObj [(''c'', JStr ''x'')])])]], None)"
  by code_simp

text \<open>
  C7, as amended. For a path of one to three segments that resolves to a value \<open>v\<close>, the
  condition matches exactly when \<open>v\<close> is a string equal to the expected value: the value is
  compared as it is, and a number or a boolean never matches.
\<close>

theorem comparison_without_conversion:
  assumes "1 \<le> length fields" "length fields \<le> 3"
    and "getpath log fields = Inr v"
  shows "include_item log fields value = Inr (v = JStr value)
       \<and> exclude_item log fields value = Inr (v \<noteq> JStr value)"
  using assms
  by (simp add: include_item_def exclude_item_def branches_upto3 py_ne_def py_eq_iff)

theorem comparison_without_conversion_witness:
  "include_item (JObj [(''a'', JObj [(''b'', JInt 5)])]) [''a'', ''b''] ''5'' = Inr False
   \<and> exclude_item (JObj [(''a'', JObj [(''b'', JInt 5)])]) [''a'', ''b''] ''5'' = Inr True
   \<and> include_item (JObj [(''a'', JObj [(''b'', JStr ''5'')])]) [''a'', ''b''] ''5'' = Inr True"
proof -
  have g1: "getpath (JObj [(''a'', JObj [(''b'', JInt 5)])]) [''a'', ''b''] = Inr (JInt 5)"
    and g2: "getpath (JObj [(''a'', JObj [(''b'', JStr ''5'')])]) [''a'', ''b''] = Inr (JStr ''5'')"
    by simp_all
  have l: "1 \<le> length [''a'', ''b'']" "length [''a'', ''b''] \<le> 3"
    by simp_all
  show ?thesis
    using comparison_without_conversion [OF l g1, of "''5''"]
      comparison_without_conversion [OF l g2, of "''5''"]
    by simp
qed

text \<open>
  The claim C7 as stated fails: the string form of the number 5 is the expected value, and
  the condition does not match (include writes nothing, exclude writes the record); likewise
  for the boolean \<^verbatim>\<open>True\<close>.
\<close>

theorem string_form_counterexample:
  "str_form (JInt 5) = Some ''5''
   \<and> filterLog [Inr (JObj [(''a'', JInt 5)])] ''a=5'' ''include'' = ([], None)
   \<and> filterLog [Inr (JObj [(''a'', JInt 5)])] ''a=5'' ''exclude'' = ([JObj [(''a'', JInt 5)]], None)
   \<and> str_form (JBool True) = Some ''True''
   \<and> filterLog [Inr (JObj [(''a'', JBool True)])] ''a=True'' ''include'' = ([], None)"
  by code_simp


section \<open>Properties of the temporal window\<close>

lemma window_lines_good:
  "\<forall>ln\<in>set good. \<exists>log t. ln = Inr log \<and> timestamp_of log = Inr t \<Longrightarrow>
   window_lines s e (good @ rest) out =
     window_lines s e rest
       (out @ filter (\<lambda>log. \<exists>t. timestamp_of log = Inr t \<and> s \<le> t \<and> t \<le> e) (map projr good))"
proof (induction good arbitrary: out)
  case Nil
  then show ?case by simp
next
  case (Cons ln good)
  then obtain log t where ln: "ln = Inr log" and t: "timestamp_of log = Inr t"
    by auto
  from Cons.prems have rest: "\<forall>ln\<in>set good. \<exists>log t. ln = Inr log \<and> timestamp_of log = Inr t"
    by simp
  show ?case
    using Cons.IH [OF rest] by (simp add: ln t writeOutput_def)
qed

lemma window_lines_all_good:
  "\<forall>ln\<in>set file. \<exists>log t. ln = Inr log \<and> timestamp_of log = Inr t \<Longrightarrow>
   window_lines s e file out =
     (out @ filter (\<lambda>log. \<exists>t. timestamp_of log = Inr t \<and> s \<le> t \<and> t \<le> e) (map projr file), None)"
  using window_lines_good [of "file" s e "[]" out] by simp

lemma strptime_error: "strptime sep str = Inl err \<Longrightarrow> err = ValueError"
  by (auto simp: strptime_def mk_datetime_def split: list.splits prod.splits if_splits)

lemma strptime_whole_seconds: "strptime sep str = Inr t \<Longrightarrow> t mod 1000000 = 0"
  by (auto simp: strptime_def mk_datetime_def split: list.splits prod.splits if_splits)

text \<open>
  C5, as amended. When every line decodes to a record with a parseable timestamp,
  \<^verbatim>\<open>timeslice\<close> and \<^verbatim>\<open>timeframe\<close> write exactly the records whose timestamp \<open>t\<close>
  satisfies \<open>start \<le> t \<le> end\<close>, in the order of the input, where \<open>start\<close> and \<open>end\<close>
  are the bounds the function has computed and \<open>t\<close> is what \<^verbatim>\<open>strptime\<close> reads from the
  first 19 characters of the field: a whole number of seconds, the fraction of the field
  being cut off. Both bounds are included.
\<close>

theorem window_inclusive:
  assumes "\<forall>ln\<in>set file. \<exists>log t. ln = Inr log \<and> timestamp_of log = Inr t"
  shows "(timeslice_window sz d = Inr (s, e) \<longrightarrow>
            timeslice file sz d =
              (filter (\<lambda>log. \<exists>t. timestamp_of log = Inr t \<and> s \<le> t \<and> t \<le> e) (map projr file), None))
       \<and> (timeframe_window tf = Inr (s, e) \<longrightarrow>
            timeframe file tf =
              (filter (\<lambda>log. \<exists>t. timestamp_of log = Inr t \<and> s \<le> t \<and> t \<le> e) (map projr file), None))
       \<and> (\<forall>ln\<in>set file. \<forall>t. timestamp_of (projr ln) = Inr t \<longrightarrow> t mod 1000000 = 0)"
proof -
  have "t mod 1000000 = 0" if "timestamp_of log = Inr t" for log t
    using that strptime_whole_seconds
    by (auto simp: timestamp_of_def split: sum.splits json.splits)
  then show ?thesis
    using window_lines_all_good [OF assms, of s e "[]"]
    by (simp add: timeslice_def timeframe_def)
qed

theorem window_inclusive_witness:
  "timeslice
     [Inr (JObj [(''insertId'', JStr ''1''), (''timestamp'', JStr ''2019-07-22T20:04:00.999999Z'')]),
      Inr (JObj [(''insertId'', JStr ''2''), (''timestamp'', JStr ''2019-07-22T20:04:01Z'')]),
      Inr (JObj [(''insertId'', JStr ''3''), (''timestamp'', JStr ''2019-07-22T20:05:01.000000Z'')]),
      Inr (JObj [(''insertId'', JStr ''4''), (''timestamp'', JStr ''2019-07-22T20:05:02.000000Z'')])]
     1 ''2019-07-22 20:04:31'' =
     ([JObj [(''insertId'', JStr ''2''), (''timestamp'', JStr ''2019-07-22T20:04:01Z'')],
       JObj [(''insertId'', JStr ''3''), (''timestamp'', JStr ''2019-07-22T20:05:01.000000Z'')]], None)
   \<and> timeframe
     [Inr (JObj [(''insertId'', JStr ''1''), (''timestamp'', JStr ''2019-07-22T20:04:00.999999Z'')]),
      Inr (JObj [(''insertId'', JStr ''2''), (''timestamp'', JStr ''2019-07-22T20:04:01Z'')]),
      Inr (JObj [(''insertId'', JStr ''3''), (''timestamp'', JStr ''2019-07-22T20:05:01.000000Z'')]),
      Inr (JObj [(''insertId'', JStr ''4''), (''timestamp'', JStr ''2019-07-22T20:05:02.000000Z'')])]
     ''2019-07-22 20:04:01 > 2019-07-22 20:05:01'' =
     ([JObj [(''insertId'', JStr ''2''), (''timestamp'', JStr ''2019-07-22T20:04:01Z'')],
       JObj [(''insertId'', JStr ''3''), (''timestamp'', JStr ''2019-07-22T20:05:01.000000Z'')]], None)"
proof -
  let ?r1 = "JObj [(''insertId'', JStr ''1''), (''timestamp'', JStr ''2019-07-22T20:04:00.999999Z'')]"
  let ?r2 = "JObj [(''insertId'', JStr ''2''), (''timestamp'', JStr ''2019-07-22T20:04:01Z'')]"
  let ?r3 = "JObj [(''insertId'', JStr ''3''), (''timestamp'', JStr ''2019-07-22T20:05:01.000000Z'')]"
  let ?r4 = "JObj [(''insertId'', JStr ''4''), (''timestamp'', JStr ''2019-07-22T20:05:02.000000Z'')]"
  let ?file = "[Inr ?r1, Inr ?r2, Inr ?r3, Inr ?r4] :: line list"
  have t: "timestamp_of ?r1 = Inr 63699422640000000" "timestamp_of ?r2 = Inr 63699422641000000"
    "timestamp_of ?r3 = Inr 63699422701000000" "timestamp_of ?r4 = Inr 63699422702000000"
    by code_simp+
  have h: "\<forall>ln\<in>set ?file. \<exists>log t. ln = Inr log \<and> timestamp_of log = Inr t"
    by (simp add: t)
  have w1: "timeslice_window 1 ''2019-07-22 20:04:31'' = Inr (63699422641000000, 63699422701000000)"
    by code_simp
  have w2: "timeframe_window ''2019-07-22 20:04:01 > 2019-07-22 20:05:01'' =
      Inr (63699422641000000, 63699422701000000)"
    by code_simp
  have sel: "filter (\<lambda>log. \<exists>t. timestamp_of log = Inr t \<and> 63699422641000000 \<le> t \<and> t \<le> 63699422701000000)
      (map projr ?file) = [?r2, ?r3]"
    by (simp add: t)
  note T = window_inclusive [OF h, of 1 "''2019-07-22 20:04:31''" 63699422641000000 63699422701000000
      "''2019-07-22 20:04:01 > 2019-07-22 20:05:01''"]
  show ?thesis
    using T [THEN conjunct1, THEN mp, OF w1] T [THEN conjunct2, THEN conjunct1, THEN mp, OF w2]
    unfolding sel by (rule conjI)
qed

text \<open>
  The claim C5 as stated fails: a record stamped one microsecond after the end of the
  window, or 999999 microseconds after it, is written, by \<^verbatim>\<open>timeslice\<close> and by
  \<^verbatim>\<open>timeframe\<close>; one stamped a full second after it is not.
\<close>

theorem window_microsecond_counterexample:
  "timeslice_window 1 ''2019-07-22 20:04:31'' = Inr (63699422641000000, 63699422701000000)
   \<and> timeframe_window ''2019-07-22 20:04:01 > 2019-07-22 20:05:01'' =
       Inr (63699422641000000, 63699422701000000)
   \<and> instant_of ''2019-07-22T20:05:01.000001Z'' = Inr 63699422701000001
   \<and> instant_of ''2019-07-22T20:05:01.999999Z'' = Inr 63699422701999999
   \<and> timeslice
        [Inr (JObj [(''timestamp'', JStr ''2019-07-22T20:05:01.000001Z'')]),
         Inr (JObj [(''timestamp'', JStr ''2019-07-22T20:05:01.999999Z'')]),
         Inr (JObj [(''timestamp'', JStr ''2019-07-22T20:05:02.000000Z'')])]
        1 ''2019-07-22 20:04:31'' =
       ([JObj [(''timestamp'', JStr ''2019-07-22T20:05:01.000001Z'')],
         JObj [(''timestamp'', JStr ''2019-07-22T20:05:01.999999Z'')]], None)
   \<and> timeframe
        [Inr (JObj [(''timestamp'', JStr ''2019-07-22T20:05:01.000001Z'')]),
         Inr (JObj [(''timestamp'', JStr ''2019-07-22T20:05:01.999999Z'')]),
         Inr (JObj [(''timestamp'', JStr ''2019-07-22T20:05:02.000000Z'')])]
        ''2019-07-22 20:04:01 > 2019-07-22 20:05:01'' =
       ([JObj [(''timestamp'', JStr ''2019-07-22T20:05:01.000001Z'')],
         JObj [(''timestamp'', JStr ''2019-07-22T20:05:01.999999Z'')]], None)"
  by code_simp

text \<open>
  C4, as amended. The first line that is malformed, or whose record has no
  \<^verbatim>\<open>timestamp\<close> key, or whose timestamp \<^verbatim>\<open>strptime\<close> refuses, ends the run of
  \<^verbatim>\<open>timeslice\<close> and of \<^verbatim>\<open>timeframe\<close> with the exception raised there
  (\<open>JSONDecodeError\<close>, \<open>KeyError\<close>, \<open>ValueError\<close>). The records selected from the lines
  before it stay written; no line after it is read.
\<close>

theorem window_error_aborts:
  assumes good: "\<forall>ln\<in>set good. \<exists>log t. ln = Inr log \<and> timestamp_of log = Inr t"
    and bad: "(bad = Inl JSONDecodeError \<and> err = JSONDecodeError)
            \<or> (\<exists>kvs. bad = Inr (JObj kvs) \<and> map_of kvs ''timestamp'' = None \<and> err = KeyError)
            \<or> (\<exists>kvs ts. bad = Inr (JObj kvs) \<and> map_of kvs ''timestamp'' = Some (JStr ts)
                  \<and> strptime lit_T (take 19 ts) = Inl err)"
  shows "(timeslice_window sz d = Inr (s, e) \<longrightarrow>
            timeslice (good @ bad # rest) sz d =
              (filter (\<lambda>log. \<exists>t. timestamp_of log = Inr t \<and> s \<le> t \<and> t \<le> e) (map projr good),
               Some err))
       \<and> (timeframe_window tf = Inr (s, e) \<longrightarrow>
            timeframe (good @ bad # rest) tf =
              (filter (\<lambda>log. \<exists>t. timestamp_of log = Inr t \<and> s \<le> t \<and> t \<le> e) (map projr good),
               Some err))
       \<and> (err = JSONDecodeError \<or> err = KeyError \<or> err = ValueError)"
proof -
  have stop: "window_lines s e (bad # rest) out = (out, Some err)" for out
    using bad by (auto simp: timestamp_of_def)
  have kind: "err = JSONDecodeError \<or> err = KeyError \<or> err = ValueError"
    using bad strptime_error by blast
  show ?thesis
    using window_lines_good [OF good, of s e "bad # rest" "[]"] stop kind
    by (simp add: timeslice_def timeframe_def)
qed

theorem window_error_aborts_witness:
  "timeslice
     [Inr (JObj [(''timestamp'', JStr ''2019-07-22T20:04:31.212077Z'')]),
      Inl JSONDecodeError,
      Inr (JObj [(''timestamp'', JStr ''2019-07-22T20:04:32.000000Z'')])]
     1 ''2019-07-22 20:04:31'' =
     ([JObj [(''timestamp'', JStr ''2019-07-22T20:04:31.212077Z'')]], Some JSONDecodeError)
   \<and> timeframe
     [Inr (JObj [(''timestamp'', JStr ''2019-07-22T20:04:31.212077Z'')]),
      Inr (JObj [(''severity'', JStr ''NOTICE'')]),
      Inr (JObj [(''timestamp'', JStr ''2019-07-22T20:04:32.000000Z'')])]
     ''2019-07-22 20:04:01 > 2019-07-22 20:05:01'' =
     ([JObj [(''timestamp'', JStr ''2019-07-22T20:04:31.212077Z'')]], Some KeyError)
   \<and> timeslice
     [Inr (JObj [(''timestamp'', JStr ''2019-07-22T20:04:31.212077Z'')]),
      Inr (JObj [(''timestamp'', JStr ''22/07/2019 20:04'')]),
      Inr (JObj [(''timestamp'', JStr ''2019-07-22T20:04:32.000000Z'')])]
     1 ''2019-07-22 20:04:31'' =
     ([JObj [(''timestamp'', JStr ''2019-07-22T20:04:31.212077Z'')]], Some ValueError)"
proof -
  let ?r = "JObj [(''timestamp'', JStr ''2019-07-22T20:04:31.212077Z'')]"
  let ?rest = "[Inr (JObj [(''timestamp'', JStr ''2019-07-22T20:04:32.000000Z'')])] :: line list"
  let ?good = "[Inr ?r] :: line list"
  let ?s = "63699422641000000 :: int"
  let ?e = "63699422701000000 :: int"
  have t: "timestamp_of ?r = Inr 63699422671000000"
    by code_simp
  have h: "\<forall>ln\<in>set ?good. \<exists>log t. ln = Inr log \<and> timestamp_of log = Inr t"
    by (simp add: t)
  have w1: "timeslice_window 1 ''2019-07-22 20:04:31'' = Inr (?s, ?e)"
    by code_simp
  have w2: "timeframe_window ''2019-07-22 20:04:01 > 2019-07-22 20:05:01'' = Inr (?s, ?e)"
    by code_simp
  have sel: "filter (\<lambda>log. \<exists>t. timestamp_of log = Inr t \<and> ?s \<le> t \<and> t \<le> ?e) (map projr ?good) = [?r]"
    by (simp add: t)
  have b1: "(Inl JSONDecodeError = (Inl JSONDecodeError :: line) \<and> JSONDecodeError = JSONDecodeError)
      \<or> (\<exists>kvs. (Inl JSONDecodeError :: line) = Inr (JObj kvs) \<and> map_of kvs ''timestamp'' = None
            \<and> JSONDecodeError = KeyError)
      \<or> (\<exists>kvs ts. (Inl JSONDecodeError :: line) = Inr (JObj kvs)
            \<and> map_of kvs ''timestamp'' = Some (JStr ts)
            \<and> strptime lit_T (take 19 ts) = Inl JSONDecodeError)"
    by simp
  let ?b2 = "Inr (JObj [(''severity'', JStr ''NOTICE'')]) :: line"
  have b2: "(?b2 = Inl JSONDecodeError \<and> KeyError = JSONDecodeError)
      \<or> (\<exists>kvs. ?b2 = Inr (JObj kvs) \<and> map_of kvs ''timestamp'' = None \<and> KeyError = KeyError)
      \<or> (\<exists>kvs ts. ?b2 = Inr (JObj kvs) \<and> map_of kvs ''timestamp'' = Some (JStr ts)
            \<and> strptime lit_T (take 19 ts) = Inl KeyError)"
    by simp
  let ?b3 = "Inr (JObj [(''timestamp'', JStr ''22/07/2019 20:04'')]) :: line"
  have p3: "strptime lit_T (take 19 ''22/07/2019 20:04'') = Inl ValueError"
    by code_simp
  have b3: "(?b3 = Inl JSONDecodeError \<and> ValueError = JSONDecodeError)
      \<or> (\<exists>kvs. ?b3 = Inr (JObj kvs) \<and> map_of kvs ''timestamp'' = None \<and> ValueError = KeyError)
      \<or> (\<exists>kvs ts. ?b3 = Inr (JObj kvs) \<and> map_of kvs ''timestamp'' = Some (JStr ts)
            \<and> strptime lit_T (take 19 ts) = Inl ValueError)"
    using p3 by simp
  note T1 = window_error_aborts [OF h b1, of 1 "''2019-07-22 20:04:31''" ?s ?e ?rest
      "''2019-07-22 20:04:01 > 2019-07-22 20:05:01''"]
  note T2 = window_error_aborts [OF h b2, of 1 "''2019-07-22 20:04:31''" ?s ?e ?rest
      "''2019-07-22 20:04:01 > 2019-07-22 20:05:01''"]
  note T3 = window_error_aborts [OF h b3, of 1 "''2019-07-22 20:04:31''" ?s ?e ?rest
      "''2019-07-22 20:04:01 > 2019-07-22 20:05:01''"]
  show ?thesis
    using T1 [THEN conjunct1, THEN mp, OF w1] T2 [THEN conjunct2, THEN conjunct1, THEN mp, OF w2]
      T3 [THEN conjunct1, THEN mp, OF w1]
    unfolding sel by simp
qed

text \<open>
  The claim C4 as stated fails: with a malformed line, a record without timestamp or an
  unparseable timestamp in front, the record that follows lies in the window and is not
  written; the run has ended with the exception. Alone in the file, it is written.
\<close>

theorem window_error_counterexample:
  "timeslice
     [Inl JSONDecodeError,
      Inr (JObj [(''timestamp'', JStr ''2019-07-22T20:04:31.212077Z'')])]
     1 ''2019-07-22 20:04:31'' = ([], Some JSONDecodeError)
   \<and> timeslice
     [Inr (JObj [(''severity'', JStr ''NOTICE'')]),
      Inr (JObj [(''timestamp'', JStr ''2019-07-22T20:04:31.212077Z'')])]
     1 ''2019-07-22 20:04:31'' = ([], Some KeyError)
   \<and> timeframe
     [Inr (JObj [(''timestamp'', JStr ''22/07/2019 20:04'')]),
      Inr (JObj [(''timestamp'', JStr ''2019-07-22T20:04:31.212077Z'')])]
     ''2019-07-22 20:04:01 > 2019-07-22 20:05:01'' = ([], Some ValueError)
   \<and> timeslice
     [Inr (JObj [(''timestamp'', JStr ''2019-07-22T20:04:31.212077Z'')])]
     1 ''2019-07-22 20:04:31'' =
       ([JObj [(''timestamp'', JStr ''2019-07-22T20:04:31.212077Z'')]], None)"
  by code_simp

lemma div_day_bounds:
  fixes x :: int
  assumes "- 315537897600000000 < x" "x < 315537897600000000"
  shows "- 999999999 \<le> x div 86400000000 \<and> x div 86400000000 \<le> 999999999"
proof -
  have "x div 86400000000 \<le> 315537897600000000 div (86400000000 :: int)"
    using assms by (intro zdiv_mono1) simp_all
  moreover have "(- 315537897600000000) div (86400000000 :: int) \<le> x div 86400000000"
    using assms by (intro zdiv_mono1) simp_all
  ultimately show ?thesis by simp
qed

text \<open>
  C6, as amended. For a center \<open>c\<close> and a size in minutes such that \<open>c\<close> minus and
  plus half the size are both dates of the years 1 to 9999, \<^verbatim>\<open>getTimeDeltas\<close> returns
  these two instants: the end minus the start is the size (in microseconds,
  \<open>sz * 60000000\<close>), and \<open>c\<close> is the midpoint.
\<close>

theorem getTimeDeltas_centered:
  assumes c: "0 \<le> c" "c < datetime_end"
    and s: "0 \<le> c - sz * 30000000" "c - sz * 30000000 < datetime_end"
    and e: "0 \<le> c + sz * 30000000" "c + sz * 30000000 < datetime_end"
  shows "\<exists>startDateTime endDateTime.
           getTimeDeltas c sz = Inr (startDateTime, endDateTime)
           \<and> startDateTime = c - sz * 30000000
           \<and> endDateTime = c + sz * 30000000
           \<and> endDateTime - startDateTime = sz * 60000000
           \<and> startDateTime + endDateTime = 2 * c"
proof -
  have "- 315537897600000000 < sz * 30000000" "sz * 30000000 < 315537897600000000"
    using c s e by (simp_all add: datetime_end_def)
  then have d: "timedelta_half_minutes sz = Inr (sz * 30000000)"
    using div_day_bounds [of "sz * 30000000"] by (simp add: timedelta_half_minutes_def Let_def)
  show ?thesis
    using s e by (simp add: getTimeDeltas_def d datetime_sub_def datetime_add_def)
qed

theorem getTimeDeltas_centered_witness:
  "convertTimeString ''2019-07-22 20:04:31'' = Inr 63699422671000000
   \<and> getTimeDeltas 63699422671000000 1 = Inr (63699422641000000, 63699422701000000)
   \<and> convertTimeString ''2019-07-22 20:04:01'' = Inr 63699422641000000
   \<and> convertTimeString ''2019-07-22 20:05:01'' = Inr 63699422701000000"
proof -
  have c: "convertTimeString ''2019-07-22 20:04:31'' = Inr 63699422671000000"
    "convertTimeString ''2019-07-22 20:04:01'' = Inr 63699422641000000"
    "convertTimeString ''2019-07-22 20:05:01'' = Inr 63699422701000000"
    by code_simp+
  have "getTimeDeltas 63699422671000000 1 = Inr (63699422641000000, 63699422701000000)"
    using getTimeDeltas_centered [of 63699422671000000 1]
    by (simp add: datetime_end_def)
  with c show ?thesis by simp
qed

text \<open>
  The claim C6 as stated fails for a center too close to the first or last representable
  instant: half a minute before 0001-01-01 00:00:00 is no \<^verbatim>\<open>datetime\<close>, the subtraction
  raises \<open>OverflowError\<close>, which \<^verbatim>\<open>getTimeDeltas\<close> does not catch.
\<close>

theorem getTimeDeltas_counterexample:
  "convertTimeString ''0001-01-01 00:00:00'' = Inr 0
   \<and> getTimeDeltas 0 1 = Inl OverflowError
   \<and> timeslice [] 1 ''0001-01-01 00:00:00'' = ([], Some OverflowError)"
  by code_simp


section \<open>Properties of the format normalizer\<close>

lemma isspace_nl: "isspace nl"
  by (simp add: isspace_def nl_def)

lemma set_strip: "set (strip s) \<subseteq> set s"
proof -
  have "set (rstrip t) \<subseteq> set t" for t
    using set_dropWhileD [of _ isspace "rev t"] by (auto simp: rstrip_def)
  moreover have "set (lstrip s) \<subseteq> set s"
    using set_dropWhileD [of _ isspace s] by (auto simp: lstrip_def)
  ultimately show ?thesis
    unfolding strip_def by blast
qed

lemma rstrip_snoc: "rstrip (xs @ [c]) = (if isspace c then rstrip xs else xs @ [c])"
  by (simp add: rstrip_def)

lemma lstrip_snoc:
  "lstrip (xs @ [c]) = (if \<forall>x\<in>set xs. isspace x then lstrip [c] else lstrip xs @ [c])"
  by (auto simp: lstrip_def dropWhile_append)

lemma strip_snoc_space: "isspace c \<Longrightarrow> strip (xs @ [c]) = strip xs"
proof (cases "\<forall>x\<in>set xs. isspace x")
  case True
  assume "isspace c"
  moreover from True have "lstrip xs = []"
    by (simp add: lstrip_def)
  ultimately show ?thesis
    using True by (simp add: strip_def lstrip_snoc) (simp add: lstrip_def rstrip_def)
next
  case False
  assume "isspace c"
  with False show ?thesis
    by (auto simp: strip_def lstrip_snoc rstrip_snoc)
qed

lemma strip_nonl: "nl \<notin> set (butlast l) \<Longrightarrow> nl \<notin> set (strip l)"
proof (cases l rule: rev_cases)
  case Nil
  then show ?thesis by (simp add: strip_def lstrip_def rstrip_def)
next
  case (snoc xs c)
  assume a: "nl \<notin> set (butlast l)"
  show ?thesis
  proof (cases "c = nl")
    case True
    then have "strip l = strip xs"
      using snoc by (simp add: strip_snoc_space isspace_nl)
    then show ?thesis using a snoc set_strip [of xs] by auto
  next
    case False
    then have "nl \<notin> set l" using a snoc by simp
    then show ?thesis using set_strip [of l] by auto
  qed
qed

lemma strip_nonempty: "c \<in> set s \<Longrightarrow> \<not> isspace c \<Longrightarrow> strip s \<noteq> []"
proof -
  assume c: "c \<in> set s" and n: "\<not> isspace c"
  then have l: "lstrip s \<noteq> []"
    by (auto simp: lstrip_def)
  have "hd (lstrip s) \<in> set (lstrip s)" using l by simp
  moreover have "\<not> isspace (hd (lstrip s))"
    using l hd_dropWhile [of isspace s] by (simp add: lstrip_def)
  ultimately have "\<exists>x\<in>set (rev (lstrip s)). \<not> isspace x"
    by auto
  then show ?thesis
    by (auto simp: strip_def rstrip_def)
qed

lemma readlines_lines:
  "l \<in> set (readlines t) \<Longrightarrow> l \<noteq> [] \<and> nl \<notin> set (butlast l)"
proof (induction t arbitrary: l)
  case Nil
  then show ?case by simp
next
  case (Cons c cs)
  show ?case
  proof (cases "c = nl")
    case True
    with Cons show ?thesis by auto
  next
    case False
    show ?thesis
    proof (cases "readlines cs")
      case Nil
      with Cons False show ?thesis by simp
    next
      case (Cons l' ls)
      with Cons.prems False have "l = c # l' \<or> l \<in> set ls" by simp
      then show ?thesis
      proof
        assume "l = c # l'"
        moreover have "l' \<noteq> [] \<and> nl \<notin> set (butlast l')"
          using Cons.IH [of l'] Cons by simp
        ultimately show ?thesis using False by simp
      next
        assume "l \<in> set ls"
        then show ?thesis using Cons.IH [of l] Cons by simp
      qed
    qed
  qed
qed

lemma readlines_terminated:
  "t = [] \<or> last t = nl \<Longrightarrow> l \<in> set (readlines t) \<Longrightarrow> last l = nl"
proof (induction t arbitrary: l)
  case Nil
  then show ?case by simp
next
  case (Cons c cs)
  have tail: "cs = [] \<or> last cs = nl"
    using Cons.prems(1) by (cases cs) auto
  show ?case
  proof (cases "c = nl")
    case True
    with Cons tail show ?thesis by auto
  next
    case False
    then have cs: "cs \<noteq> []" using Cons.prems(1) by auto
    then obtain l' ls where r: "readlines cs = l' # ls"
      by (cases cs; cases "readlines cs") (auto split: if_splits list.splits)
    with Cons.prems False have "l = c # l' \<or> l \<in> set ls" by simp
    then show ?thesis
    proof
      assume l: "l = c # l'"
      have "last l' = nl" using Cons.IH [OF tail, of l'] r by simp
      moreover have "l' \<noteq> []" using readlines_lines [of l' cs] r by simp
      ultimately show ?thesis using l by simp
    next
      assume "l \<in> set ls"
      then show ?thesis using Cons.IH [OF tail, of l] r by simp
    qed
  qed
qed

lemma brace_not_space: "\<not> isspace (CHR ''}'')"
  by (simp add: isspace_def)

lemma startswith_closing: "startswith line ''  }'' \<Longrightarrow> take 3 line = ''  }''"
  by (simp add: startswith_def numeral_3_eq_3)

lemma closing_length:
  assumes "startswith line ''  }''" "last line = nl"
  shows "4 \<le> length line"
proof (rule ccontr)
  assume "\<not> 4 \<le> length line"
  then have "length line \<le> 3" by simp
  then have "line = ''  }''"
    using startswith_closing [OF assms(1)] by simp
  then show False using assms(2) by (simp add: nl_def)
qed

lemma closing_comma_length:
  assumes "startswith line ''  }''" "last line = nl" "endswith (strip line) '',''"
  shows "5 \<le> length line"
proof (rule ccontr)
  assume "\<not> 5 \<le> length line"
  with closing_length [OF assms(1,2)] have len: "length line = 4" by simp
  then have "line = take 3 line @ [last line]"
    by (cases line rule: rev_cases) simp_all
  then have "line = ''  }'' @ [nl]"
    using startswith_closing [OF assms(1)] assms(2) by simp
  then have "strip line = ''}''"
    by (simp add: strip_def lstrip_def rstrip_def isspace_def nl_def)
  then show False using assms(3) by (simp add: endswith_def)
qed

lemma closing_prefix_brace:
  assumes "startswith line ''  }''" "3 \<le> n"
  shows "CHR ''}'' \<in> set (take n line)"
proof -
  have "take 3 (take n line) = ''  }''"
    using startswith_closing [OF assms(1)] assms(2) by (simp add: min_def)
  then have "CHR ''}'' \<in> set (take 3 (take n line))" by simp
  then show ?thesis by (rule in_set_takeD)
qed

lemma take_nonl:
  assumes "nl \<notin> set (butlast line)" "n < length line"
  shows "nl \<notin> set (strip (take n line))"
proof -
  have "take n line = take n (butlast line)"
    using assms(2) by (simp add: take_butlast)
  then have "set (take n line) \<subseteq> set (butlast line)"
    by (metis set_take_subset)
  then show ?thesis using assms(1) set_strip [of "take n line"] by blast
qed

lemma closing_piece:
  assumes "startswith line ''  }''" "last line = nl" "nl \<notin> set (butlast line)"
  shows "strip (take (length line - 1) line) \<noteq> [] \<and> nl \<notin> set (strip (take (length line - 1) line))"
proof -
  have len: "4 \<le> length line" by (rule closing_length [OF assms(1,2)])
  have "CHR ''}'' \<in> set (take (length line - 1) line)"
    using len by (intro closing_prefix_brace [OF assms(1)]) simp
  then have "strip (take (length line - 1) line) \<noteq> []"
    using brace_not_space by (rule strip_nonempty)
  moreover have "nl \<notin> set (strip (take (length line - 1) line))"
    using len by (intro take_nonl [OF assms(3)]) simp
  ultimately show ?thesis ..
qed

lemma closing_comma_piece:
  assumes "startswith line ''  }''" "last line = nl" "nl \<notin> set (butlast line)"
    and "endswith (strip line) '',''"
  shows "strip (take (length line - 2) line) \<noteq> [] \<and> nl \<notin> set (strip (take (length line - 2) line))"
proof -
  have len: "5 \<le> length line" by (rule closing_comma_length [OF assms(1,2,4)])
  have "CHR ''}'' \<in> set (take (length line - 2) line)"
    using len by (intro closing_prefix_brace [OF assms(1)]) simp
  then have "strip (take (length line - 2) line) \<noteq> []"
    using brace_not_space by (rule strip_nonempty)
  moreover have "nl \<notin> set (strip (take (length line - 2) line))"
    using len by (intro take_nonl [OF assms(3)]) simp
  ultimately show ?thesis ..
qed

lemma emit_ok:
  assumes "chunks_ok output" "buffer_ok log output" "piece \<noteq> []" "nl \<notin> set piece"
  shows "chunks_ok (writeOutput (log @ piece) output) \<and> buffer_ok [nl] (writeOutput (log @ piece) output)"
proof (cases "output")
  case Nil
  with assms show ?thesis
    by (simp add: chunks_ok_def buffer_ok_def writeOutput_def)
next
  case (Cons c cs)
  with assms obtain b where "log = nl # b" "nl \<notin> set b"
    by (auto simp: buffer_ok_def)
  with Cons assms show ?thesis
    by (simp add: chunks_ok_def buffer_ok_def writeOutput_def)
qed

lemma append_ok:
  assumes "buffer_ok log output" "nl \<notin> set piece"
  shows "buffer_ok (log @ piece) output"
  using assms by (auto simp: buffer_ok_def)

lemma format_lines_chunks:
  assumes "\<forall>l\<in>set lines. last l = nl \<and> nl \<notin> set (butlast l)"
    and "chunks_ok output" "buffer_ok log output"
  shows "chunks_ok (format_lines lines log output)"
  using assms
proof (induction lines arbitrary: log "output")
  case Nil
  then show ?case by simp
next
  case (Cons line lines)
  from Cons.prems(1) have line: "last line = nl" "nl \<notin> set (butlast line)"
    and rest: "\<forall>l\<in>set lines. last l = nl \<and> nl \<notin> set (butlast l)"
    by simp_all
  have app: "buffer_ok (log @ strip line) output"
    using Cons.prems(3) strip_nonl [OF line(2)] by (rule append_ok)
  note IH = Cons.IH [OF rest]
  consider (c_skip) "startswith (strip line) ''[''"
    | (c_open) "\<not> startswith (strip line) ''[''" "startswith line ''  {''"
    | (c_comma) "\<not> startswith (strip line) ''[''" "\<not> startswith line ''  {''"
        "startswith line ''  }''" "endswith (strip line) '',''"
    | (c_final) "\<not> startswith (strip line) ''[''" "\<not> startswith line ''  {''"
        "startswith line ''  }''" "\<not> endswith (strip line) '',''"
    | (c_other) "\<not> startswith (strip line) ''[''" "\<not> startswith line ''  {''"
        "\<not> startswith line ''  }''"
    by blast
  then show ?case
  proof cases
    case c_skip
    then show ?thesis using IH [OF Cons.prems(2,3)] by simp
  next
    case c_open
    then show ?thesis using IH [OF Cons.prems(2) app] by simp
  next
    case c_comma
    have "strip (take (length line - 2) line) \<noteq> [] \<and> nl \<notin> set (strip (take (length line - 2) line))"
      by (rule closing_comma_piece [OF c_comma(3) line c_comma(4)])
    then have "chunks_ok (writeOutput (log @ strip (take (length line - 2) line)) output)
        \<and> buffer_ok [nl] (writeOutput (log @ strip (take (length line - 2) line)) output)"
      using emit_ok [OF Cons.prems(2,3)] by blast
    then show ?thesis using c_comma IH by simp
  next
    case c_final
    have "strip (take (length line - 1) line) \<noteq> [] \<and> nl \<notin> set (strip (take (length line - 1) line))"
      by (rule closing_piece [OF c_final(3) line])
    then have "chunks_ok (writeOutput (log @ strip (take (length line - 1) line)) output)
        \<and> buffer_ok [nl] (writeOutput (log @ strip (take (length line - 1) line)) output)"
      using emit_ok [OF Cons.prems(2,3)] by blast
    then show ?thesis using c_final IH by simp
  next
    case c_other
    then show ?thesis
      using IH [OF Cons.prems(2,3)] IH [OF Cons.prems(2) app] by simp
  qed
qed

lemma chunks_join:
  "chunks_ok output \<Longrightarrow> concat output = join_lines (records_of output)"
proof (cases "output")
  case Nil
  then show ?thesis by (simp add: join_lines_def records_of_def)
next
  case (Cons c cs)
  assume "chunks_ok output"
  then have "\<forall>x\<in>set cs. x = nl # tl x"
    using Cons by (auto simp: chunks_ok_def)
  then have "concat cs = concat (map (\<lambda>x. nl # tl x) cs)"
    by (induction cs) auto
  then show ?thesis
    using Cons by (simp add: join_lines_def records_of_def comp_def)
qed

lemma chunks_records:
  "chunks_ok output \<Longrightarrow> r \<in> set (records_of output) \<Longrightarrow> r \<noteq> [] \<and> nl \<notin> set r"
  by (cases "output") (auto simp: chunks_ok_def records_of_def)

lemma chunks_last:
  "chunks_ok output \<Longrightarrow> output \<noteq> [] \<Longrightarrow> concat output \<noteq> [] \<and> last (concat output) \<noteq> nl"
proof -
  assume ok: "chunks_ok output" and ne: "output \<noteq> []"
  then obtain xs x where o: "output = xs @ [x]"
    by (cases "output" rule: rev_cases) auto
  have "x \<noteq> [] \<and> last x \<noteq> nl"
  proof (cases xs)
    case Nil
    then have "x \<noteq> []" "nl \<notin> set x" using ok o by (simp_all add: chunks_ok_def)
    then show ?thesis by (metis last_in_set)
  next
    case (Cons c cs)
    then obtain b where "x = nl # b" "b \<noteq> []" "nl \<notin> set b"
      using ok o by (auto simp: chunks_ok_def)
    then show ?thesis by (metis last_in_set last_ConsR list.distinct(1))
  qed
  then show ?thesis using o by simp
qed

lemma readlines_line: "nl \<notin> set b \<Longrightarrow> readlines (b @ nl # t) = (b @ [nl]) # readlines t"
  by (induction b) auto

lemma readlines_concat:
  "\<forall>l\<in>set ls. l \<noteq> [] \<and> last l = nl \<and> nl \<notin> set (butlast l) \<Longrightarrow> readlines (concat ls) = ls"
proof (induction ls)
  case Nil
  then show ?case by simp
next
  case (Cons l ls)
  then have ne: "l \<noteq> []" and la: "last l = nl" and bl: "nl \<notin> set (butlast l)"
    by simp_all
  obtain b where l: "l = b @ [nl]" and b: "nl \<notin> set b"
    using append_butlast_last_id [OF ne] la bl by metis
  show ?case
    using Cons readlines_line [OF b, of "concat ls"] by (simp add: l)
qed

lemma interior_shape:
  assumes "interior l"
  obtains r where "l = ''    '' @ r" "2 \<le> length r"
proof -
  from assms have "take 4 l = ''    ''"
    by (simp add: interior_def startswith_def numeral_eq_Suc)
  then have l: "l = ''    '' @ drop 4 l"
    by (metis append_take_drop_id)
  obtain c where c: "c \<in> set l" "\<not> isspace c"
    using assms by (auto simp: interior_def list_ex_iff)
  have sp: "isspace (CHR '' '')" by (simp add: isspace_def)
  have cr: "c \<in> set (drop 4 l)"
    using c sp by (subst (asm) l) auto
  have la: "last l = nl" using assms by (simp add: interior_def)
  have "2 \<le> length (drop 4 l)"
  proof (rule ccontr)
    assume "\<not> 2 \<le> length (drop 4 l)"
    then obtain x where x: "drop 4 l = [x]"
      using cr by (cases "drop 4 l") (auto simp: Suc_le_eq)
    then have "l = ''    '' @ [x]" using l by simp
    then have "x = nl" using la by simp
    then show False using cr x c(2) isspace_nl by simp
  qed
  with l show ?thesis by (rule that)
qed

lemma interior_step:
  assumes "interior l"
  shows "format_lines (l # rest) log out =
           format_lines rest (if startswith (strip l) ''['' then log else log @ strip l) out"
proof -
  obtain r where l: "l = ''    '' @ r" and r: "2 \<le> length r"
    using assms by (rule interior_shape)
  have "\<not> startswith l ''  {''" "\<not> startswith l ''  }''" "\<not> startswith l '']''"
    by (simp_all add: l startswith_def)
  moreover have "length l > 5" using r by (simp add: l)
  ultimately show ?thesis by simp
qed

lemma interior_lines:
  "\<forall>l\<in>set body. interior l \<Longrightarrow>
   format_lines (body @ rest) log out =
     format_lines rest
       (log @ concat (map strip (filter (\<lambda>l. \<not> startswith (strip l) ''['') body))) out"
proof (induction body arbitrary: log)
  case Nil
  then show ?case by simp
next
  case (Cons l body)
  then have l: "interior l" and rest: "\<forall>l\<in>set body. interior l"
    by simp_all
  have "format_lines ((l # body) @ rest) log out =
      format_lines (body @ rest) (if startswith (strip l) ''['' then log else log @ strip l) out"
    by (simp only: append_Cons interior_step [OF l])
  then show ?case
    using Cons.IH [OF rest] by (simp del: format_lines.simps)
qed

lemma strip_open: "strip (''  {'' @ [nl]) = ''{''"
  by (simp add: strip_def lstrip_def rstrip_def isspace_def nl_def)

lemma strip_close: "strip ''  }'' = ''}''"
  by (simp add: strip_def lstrip_def rstrip_def isspace_def)

lemma strip_close_nl: "strip (''  }'' @ [nl]) = ''}''"
  by (simp add: strip_def lstrip_def rstrip_def isspace_def nl_def)

lemma strip_close_comma: "strip (''  },'' @ [nl]) = ''},''"
  by (simp add: strip_def lstrip_def rstrip_def isspace_def nl_def)

lemma format_element:
  assumes "\<forall>l\<in>set body. interior l"
  shows "format_lines (element body more @ rest) log out =
           format_lines rest [nl] (out @ [log @ record_of body])"
proof -
  let ?mid = "concat (map strip (filter (\<lambda>l. \<not> startswith (strip l) ''['') body))"
  let ?close = "''  }'' @ (if more then '','' else []) @ [nl]"
  have open_line: "format_lines ((''  {'' @ [nl]) # body @ ?close # rest) log out =
      format_lines (body @ ?close # rest) (log @ ''{'') out"
    using strip_open by (simp add: startswith_def)
  have close_line: "format_lines (?close # rest) (log @ ''{'' @ ?mid) out =
      format_lines rest [nl] (out @ [log @ ''{'' @ ?mid @ ''}''])"
  proof (cases more)
    case True
    then show ?thesis
      using strip_close_comma strip_close
      by (simp add: startswith_def endswith_def writeOutput_def)
  next
    case False
    then show ?thesis
      using strip_close_nl strip_close
      by (simp add: startswith_def endswith_def writeOutput_def)
  qed
  have "format_lines (element body more @ rest) log out =
      format_lines ((''  {'' @ [nl]) # body @ ?close # rest) log out"
    by (simp add: element_def del: format_lines.simps)
  also have "\<dots> = format_lines (body @ ?close # rest) (log @ ''{'') out"
    by (rule open_line)
  also have "\<dots> = format_lines (?close # rest) ((log @ ''{'') @ ?mid) out"
    by (rule interior_lines [OF assms])
  also have "\<dots> = format_lines rest [nl] (out @ [log @ ''{'' @ ?mid @ ''}''])"
    using close_line by (simp del: format_lines.simps)
  finally show ?thesis
    by (simp add: record_of_def del: format_lines.simps)
qed

lemma format_elements:
  "\<forall>b\<in>set bodies. \<forall>l\<in>set b. interior l \<Longrightarrow>
   format_lines (elements bodies @ rest) log out =
     format_lines rest (if bodies = [] then log else [nl]) (out @ emitted log bodies)"
proof (induction bodies arbitrary: log out rule: elements.induct)
  case 1
  then show ?case by (simp add: emitted_def)
next
  case (2 b)
  then have "\<forall>l\<in>set b. interior l" by simp
  then show ?case by (simp add: format_element emitted_def del: format_lines.simps)
next
  case (3 b b' bs)
  then have b: "\<forall>l\<in>set b. interior l" and rest: "\<forall>b\<in>set (b' # bs). \<forall>l\<in>set b. interior l"
    by simp_all
  show ?case
    using "3.IH" [OF rest, of "[nl]" "out @ [log @ record_of b]"]
    by (simp add: format_element [OF b] emitted_def del: format_lines.simps)
qed

lemma element_lines_ok:
  "\<forall>l\<in>set body. interior l \<Longrightarrow>
   \<forall>l\<in>set (element body more). l \<noteq> [] \<and> last l = nl \<and> nl \<notin> set (butlast l)"
  by (auto simp: element_def interior_def nl_def)

lemma elements_lines_ok:
  "\<forall>b\<in>set bodies. \<forall>l\<in>set b. interior l \<Longrightarrow>
   \<forall>l\<in>set (elements bodies). l \<noteq> [] \<and> last l = nl \<and> nl \<notin> set (butlast l)"
proof (induction bodies rule: elements.induct)
  case 1
  then show ?case by simp
next
  case (2 b)
  then show ?case using element_lines_ok [of b False] by simp
next
  case (3 b b' bs)
  then show ?case using element_lines_ok [of b True] by auto
qed

lemma format_conventional:
  assumes "\<forall>b\<in>set bodies. \<forall>l\<in>set b. interior l"
  shows "gcloudFormatter (array_text bodies) = emitted [] bodies"
proof -
  let ?ls = "[''['' @ [nl]] @ elements bodies @ ['']'' @ [nl]]"
  have "\<forall>l\<in>set ?ls. l \<noteq> [] \<and> last l = nl \<and> nl \<notin> set (butlast l)"
    using elements_lines_ok [OF assms] by (auto simp: nl_def)
  then have "readlines (array_text bodies) = ?ls"
    unfolding array_text_def by (rule readlines_concat)
  moreover have "strip (''['' @ [nl]) = ''[''" "strip ('']'' @ [nl]) = '']''"
    by (simp_all add: strip_def lstrip_def rstrip_def isspace_def nl_def)
  ultimately show ?thesis
    using format_elements [OF assms, of "['']'' @ [nl]]" "[]" "[]"]
    by (simp add: gcloudFormatter_def startswith_def)
qed

lemma records_of_emitted: "records_of (emitted [] bodies) = map record_of bodies"
  by (cases bodies) (simp_all add: records_of_def emitted_def comp_def)

text \<open>
  C9, as amended. For an input whose lines all end with a newline, every record that the
  normalizer writes is a text without newline and not empty, the output is the records with
  exactly one newline between two of them, and it does not end with a newline: the last line
  is not terminated. For an input in the layout of the specification, the output is the
  records \<open>record_of\<close> of its elements so joined, each of which begins with the brace of its
  element and ends with the closing brace: neither the brackets of the array nor the comma
  after an element are copied.
\<close>

theorem formatter_newline_separated:
  "((file = [] \<or> last file = nl) \<longrightarrow>
      concat (gcloudFormatter file) = join_lines (records_of (gcloudFormatter file))
      \<and> length (records_of (gcloudFormatter file)) = length (gcloudFormatter file)
      \<and> (\<forall>r\<in>set (records_of (gcloudFormatter file)). r \<noteq> [] \<and> nl \<notin> set r)
      \<and> (gcloudFormatter file \<noteq> [] \<longrightarrow>
            concat (gcloudFormatter file) \<noteq> [] \<and> last (concat (gcloudFormatter file)) \<noteq> nl))
   \<and> ((\<forall>b\<in>set bodies. \<forall>l\<in>set b. interior l) \<longrightarrow>
        concat (gcloudFormatter (array_text bodies)) = join_lines (map record_of bodies))"
proof (intro conjI impI)
  assume t: "file = [] \<or> last file = nl"
  have lines: "\<forall>l\<in>set (readlines file). last l = nl \<and> nl \<notin> set (butlast l)"
    using readlines_terminated [OF t] readlines_lines by blast
  have ok: "chunks_ok (gcloudFormatter file)"
    unfolding gcloudFormatter_def
    by (rule format_lines_chunks [OF lines]) (simp_all add: chunks_ok_def buffer_ok_def)
  show "concat (gcloudFormatter file) = join_lines (records_of (gcloudFormatter file))"
    by (rule chunks_join [OF ok])
  show "length (records_of (gcloudFormatter file)) = length (gcloudFormatter file)"
    by (cases "gcloudFormatter file") (simp_all add: records_of_def)
  show "\<forall>r\<in>set (records_of (gcloudFormatter file)). r \<noteq> [] \<and> nl \<notin> set r"
    using chunks_records [OF ok] by blast
  show "concat (gcloudFormatter file) \<noteq> []" if "gcloudFormatter file \<noteq> []"
    using chunks_last [OF ok that] by simp
  show "last (concat (gcloudFormatter file)) \<noteq> nl" if "gcloudFormatter file \<noteq> []"
    using chunks_last [OF ok that] by simp
next
  assume conv: "\<forall>b\<in>set bodies. \<forall>l\<in>set b. interior l"
  have "concat (emitted [] bodies) = join_lines (map record_of bodies)"
    by (cases bodies) (simp_all add: emitted_def join_lines_def comp_def)
  then show "concat (gcloudFormatter (array_text bodies)) = join_lines (map record_of bodies)"
    by (simp add: format_conventional [OF conv])
qed

theorem formatter_newline_separated_witness:
  \<open>concat (gcloudFormatter ''[\<newline>  {\<newline>    "a": 1\<newline>  },\<newline>  {\<newline>    "b": 2\<newline>  }\<newline>]\<newline>'') =
     join_lines [''{"a": 1}'', ''{"b": 2}'']
   \<and> last (concat (gcloudFormatter ''[\<newline>  {\<newline>    "a": 1\<newline>  },\<newline>  {\<newline>    "b": 2\<newline>  }\<newline>]\<newline>'')) \<noteq> nl
   \<and> concat (gcloudFormatter (array_text [[''    "a": 1\<newline>''], [''    "b": 2\<newline>'']])) =
     join_lines [''{"a": 1}'', ''{"b": 2}'']\<close>
proof -
  let ?file = \<open>''[\<newline>  {\<newline>    "a": 1\<newline>  },\<newline>  {\<newline>    "b": 2\<newline>  }\<newline>]\<newline>''\<close>
  let ?bodies = \<open>[[''    "a": 1\<newline>''], [''    "b": 2\<newline>'']]\<close>
  have h1: "?file = [] \<or> last ?file = nl"
    by (simp add: nl_def)
  have h2: "\<forall>b\<in>set ?bodies. \<forall>l\<in>set b. interior l"
    by (simp add: interior_def startswith_def isspace_def nl_def)
  have r1: \<open>records_of (gcloudFormatter ?file) = [''{"a": 1}'', ''{"b": 2}'']\<close>
    by code_simp
  have r2: \<open>map record_of ?bodies = [''{"a": 1}'', ''{"b": 2}'']\<close>
    by code_simp
  have n: "gcloudFormatter ?file \<noteq> []"
    by code_simp
  note T = formatter_newline_separated [of ?file ?bodies]
  note T1 = T [THEN conjunct1, THEN mp, OF h1]
  note T2 = T [THEN conjunct2, THEN mp, OF h2]
  have a: "concat (gcloudFormatter ?file) = join_lines (records_of (gcloudFormatter ?file))"
    using T1 by (rule conjunct1)
  have b: "last (concat (gcloudFormatter ?file)) \<noteq> nl"
    using T1 n by blast
  show ?thesis
    using a b T2 unfolding r1 r2 by (intro conjI)
qed

text \<open>
  The claim C9 as stated fails: the output for an array of two objects ends with the closing
  brace of the second record, not with a newline.
\<close>

theorem formatter_newline_counterexample:
  \<open>concat (gcloudFormatter ''[\<newline>  {\<newline>    "a": 1\<newline>  },\<newline>  {\<newline>    "b": 2\<newline>  }\<newline>]\<newline>'') =
     ''{"a": 1}\<newline>{"b": 2}''
   \<and> last (concat (gcloudFormatter ''[\<newline>  {\<newline>    "a": 1\<newline>  },\<newline>  {\<newline>    "b": 2\<newline>  }\<newline>]\<newline>'')) =
     CHR ''}''\<close>
  by code_simp

text \<open>
  C1. The code at inputs where it departs from the claim: an array that is itself an element
  of an array opens on a line of its own, whose trimmed form starts with \<^verbatim>\<open>[\<close>; the loop
  takes it for the start of the input and skips it. The object \<^verbatim>\<open>{"a": [[1]]}\<close> comes out
  as a line that is no JSON text, the object \<^verbatim>\<open>{"a": [[]]}\<close> as the different object
  \<^verbatim>\<open>{"a": []}\<close>. The object \<^verbatim>\<open>{"a": [1]}\<close> comes out as it went in.
\<close>

theorem formatter_nested_array:
  \<open>array_text [[''    "a": [\<newline>'', ''      [\<newline>'', ''        1\<newline>'', ''      ]\<newline>'', ''    ]\<newline>'']] =
     ''[\<newline>  {\<newline>    "a": [\<newline>      [\<newline>        1\<newline>      ]\<newline>    ]\<newline>  }\<newline>]\<newline>''
   \<and> gcloudFormatter ''[\<newline>  {\<newline>    "a": [\<newline>      [\<newline>        1\<newline>      ]\<newline>    ]\<newline>  }\<newline>]\<newline>'' =
     [''{"a": [1]]}'']
   \<and> gcloudFormatter ''[\<newline>  {\<newline>    "a": [\<newline>      []\<newline>    ]\<newline>  }\<newline>]\<newline>'' =
     [''{"a": []}'']
   \<and> gcloudFormatter ''[\<newline>  {\<newline>    "a": [\<newline>      1\<newline>    ]\<newline>  }\<newline>]\<newline>'' =
     [''{"a": [1]}'']\<close>
  by code_simp

text \<open>
  The normalizer on well-behaved input. For an input in the layout of the specification with
  \<open>N\<close> elements, the normalizer writes \<open>N\<close> records, in the order of the input, the record of an
  element being its brace, its trimmed interior lines that do not start with \<^verbatim>\<open>[\<close>, and
  its closing brace. When no interior line starts with \<^verbatim>\<open>[\<close>, the record is the text of
  the element with nothing removed but the indentation and the ends of lines.
\<close>

theorem formatter_one_record_per_element:
  assumes "\<forall>b\<in>set bodies. \<forall>l\<in>set b. interior l"
  shows "length (gcloudFormatter (array_text bodies)) = length bodies
       \<and> records_of (gcloudFormatter (array_text bodies)) = map record_of bodies
       \<and> ((\<forall>b\<in>set bodies. \<forall>l\<in>set b. \<not> startswith (strip l) ''['') \<longrightarrow>
            records_of (gcloudFormatter (array_text bodies)) =
              map (\<lambda>b. ''{'' @ concat (map strip b) @ ''}'') bodies)"
proof -
  have f: "gcloudFormatter (array_text bodies) = emitted [] bodies"
    by (rule format_conventional [OF assms])
  have len: "length (emitted [] bodies) = length bodies"
    by (cases bodies) (simp_all add: emitted_def)
  have all: "map record_of bodies = map (\<lambda>b. ''{'' @ concat (map strip b) @ ''}'') bodies"
    if "\<forall>b\<in>set bodies. \<forall>l\<in>set b. \<not> startswith (strip l) ''[''"
  proof -
    have "filter (\<lambda>l. \<not> startswith (strip l) ''['') b = b" if "b \<in> set bodies" for b
      using that \<open>\<forall>b\<in>set bodies. \<forall>l\<in>set b. \<not> startswith (strip l) ''[''\<close>
      by (simp add: filter_id_conv)
    then show ?thesis by (simp add: record_of_def)
  qed
  show ?thesis
    using len all by (simp add: f records_of_emitted)
qed

theorem formatter_one_record_per_element_witness:
  \<open>length (gcloudFormatter (array_text
      [[''    "a": 1,\<newline>'', ''    "b": {\<newline>'', ''      "c": "x y"\<newline>'', ''    }\<newline>''], [''    "d": null\<newline>'']])) = 2
   \<and> records_of (gcloudFormatter (array_text
      [[''    "a": 1,\<newline>'', ''    "b": {\<newline>'', ''      "c": "x y"\<newline>'', ''    }\<newline>''], [''    "d": null\<newline>'']])) =
     [''{"a": 1,"b": {"c": "x y"}}'', ''{"d": null}'']\<close>
proof -
  let ?bodies = \<open>[[''    "a": 1,\<newline>'', ''    "b": {\<newline>'', ''      "c": "x y"\<newline>'', ''    }\<newline>''], [''    "d": null\<newline>'']]\<close>
  have h: "\<forall>b\<in>set ?bodies. \<forall>l\<in>set b. interior l"
    by (simp add: interior_def startswith_def isspace_def nl_def)
  have h2: "\<forall>b\<in>set ?bodies. \<forall>l\<in>set b. \<not> startswith (strip l) ''[''"
    by code_simp
  have r: \<open>map (\<lambda>b. ''{'' @ concat (map strip b) @ ''}'') ?bodies =
      [''{"a": 1,"b": {"c": "x y"}}'', ''{"d": null}'']\<close>
    by code_simp
  note T = formatter_one_record_per_element [OF h]
  have a: "length (gcloudFormatter (array_text ?bodies)) = length ?bodies"
    using T by (rule conjunct1)
  have b: "records_of (gcloudFormatter (array_text ?bodies)) =
      map (\<lambda>b. ''{'' @ concat (map strip b) @ ''}'') ?bodies"
    using T h2 by blast
  have "length ?bodies = 2" by simp
  with a b show ?thesis
    unfolding r by (intro conjI) simp_all
qed

end
